theory Spec2Isabelle
  imports Main "HOL-Library.Word"
begin

unbundle bit_operations_syntax

section \<open>JavaScript strings\<close>

text \<open>
  A JavaScript string is a sequence of UTF-16 code units. The provider filters
  strings by code-unit ranges (combining marks \<open>U+0300..U+036F\<close>, white space,
  ASCII allow-sets), so a string is modelled as the list of its code units, each a
  natural number. \<open>js\<close> turns an ASCII literal into such a list.
\<close>

type_synonym jsstring = "nat list"

definition js :: "string \<Rightarrow> jsstring" where
  "js s = map of_char s"

definition slash :: nat where "slash = 47"
definition backslash :: nat where "backslash = 92"
definition dot :: nat where "dot = 46"
definition dash :: nat where "dash = 45"
definition space :: nat where "space = 32"

text \<open>\<open>s.startsWith(p)\<close>, \<open>s.endsWith(p)\<close> and \<open>s.includes(t)\<close>.\<close>

fun startsWith :: "jsstring \<Rightarrow> jsstring \<Rightarrow> bool" where
  "startsWith s [] = True"
| "startsWith [] (p # ps) = False"
| "startsWith (c # cs) (p # ps) = (c = p \<and> startsWith cs ps)"

definition endsWith :: "jsstring \<Rightarrow> jsstring \<Rightarrow> bool" where
  "endsWith s p = startsWith (rev s) (rev p)"

fun includesStr :: "jsstring \<Rightarrow> jsstring \<Rightarrow> bool" where
  "includesStr [] t = (t = [])"
| "includesStr (c # cs) t = (startsWith (c # cs) t \<or> includesStr cs t)"

text \<open>
  White space as \<open>String.prototype.trim\<close> and the regular-expression class \<open>\s\<close>
  see it: the ECMAScript WhiteSpace and LineTerminator code points.
\<close>

definition isSpace :: "nat \<Rightarrow> bool" where
  "isSpace c = (c = 9 \<or> c = 10 \<or> c = 11 \<or> c = 12 \<or> c = 13 \<or> c = 32 \<or> c = 160
     \<or> c = 5760 \<or> (8192 \<le> c \<and> c \<le> 8202) \<or> c = 8232 \<or> c = 8233 \<or> c = 8239
     \<or> c = 8287 \<or> c = 12288 \<or> c = 65279)"

definition trim :: "jsstring \<Rightarrow> jsstring" where
  "trim s = rev (dropWhile isSpace (rev (dropWhile isSpace s)))"

section \<open>Exceptions\<close>

text \<open>
  Exceptions are values: a function that can throw returns \<open>error + 'a\<close>, with
  \<open>Inl\<close> the exception.
\<close>

datatype error =
    ERR_CRYPTO_TIMING_SAFE_EQUAL_LENGTH
  | ENOENT | EISDIR | ENOTDIR | ENOTEMPTY | EEXIST
  | InvalidFilePath
  | MissingStreamOrBuffer
  | VerifierFault
  | DatabaseFault

section \<open>The file descriptor\<close>

type_synonym byte = "8 word"

text \<open>
  The \<open>File\<close> interface of \<open>index.ts\<close>, with the fields the provider reads. An
  optional field is an \<open>option\<close>; \<open>folder\<close> is \<open>number | null\<close>. A
  \<open>stream\<close> or \<open>buffer\<close> is the bytes it carries.
\<close>

record File =
  stream :: "byte list option"
  buffer :: "byte list option"
  hash :: jsstring
  ext :: "jsstring option"
  mime :: "jsstring option"
  name :: "jsstring option"
  url :: "jsstring option"
  previewUrl :: "jsstring option"
  path :: "jsstring option"
  folder :: "nat option"
  folderPath :: "jsstring option"

definition UPLOADS_FOLDER_NAME :: jsstring where
  "UPLOADS_FOLDER_NAME = js ''uploads''"

section \<open>The provider's closure\<close>

text \<open>
  \<open>init(config)\<close> computes a handful of constants that the provider's functions
  close over; they are the fields of \<open>Env\<close>, under the names they have in
  \<open>index.ts\<close>. \<open>processCwd\<close> is the working directory that \<open>path.resolve\<close>
  falls back to, \<open>uploadPath\<close> is
  \<open>path.resolve(strapi.dirs.static.public, 'uploads')\<close>.
\<close>

record Env =
  processCwd :: jsstring
  uploadPath :: jsstring
  prefix :: jsstring
  baseUrl :: "jsstring option"
  strictPathDir :: bool
  cleanupDirs :: bool
  cleanupAdminFolders :: bool
  uploadsUrlMarker :: jsstring
  renameToUuid :: bool
  privateEnable :: bool
  privateFolderNorm :: jsstring
  privateSecret :: jsstring

definition exampleEnv :: Env where
  "exampleEnv = \<lparr> processCwd = js ''/srv/app'', uploadPath = js ''/srv/app/public/uploads'',
     prefix = [], baseUrl = None, strictPathDir = False, cleanupDirs = False,
     cleanupAdminFolders = False, uploadsUrlMarker = js ''/uploads/'', renameToUuid = False,
     privateEnable = True, privateFolderNorm = js ''private'', privateSecret = js ''s3cret'' \<rparr>"

section \<open>provider.isPrivate\<close>

text \<open>
  \<open>init\<close> computes \<open>privateFolderNorm\<close> from the configuration:
  \<open>privateEnable ? (config.privateFolder ?? 'private').replace(/^\/+|\/+$/g, '').trim() || 'private' : ''\<close>.
\<close>

definition stripSlashes :: "jsstring \<Rightarrow> jsstring" where
  "stripSlashes s = rev (dropWhile (\<lambda>c. c = slash) (rev (dropWhile (\<lambda>c. c = slash) s)))"

definition privateFolderNormOf :: "bool \<Rightarrow> jsstring option \<Rightarrow> jsstring" where
  "privateFolderNormOf enable privateFolder =
     (if enable
      then (let s = trim (stripSlashes (case privateFolder of None \<Rightarrow> js ''private'' | Some f \<Rightarrow> f))
            in if s = [] then js ''private'' else s)
      else [])"

text \<open>\<open>isPrivate(file?)\<close>; an absent \<open>file\<close> is \<open>None\<close>.\<close>

definition isPrivate :: "Env \<Rightarrow> File option \<Rightarrow> bool" where
  "isPrivate env file =
     (if \<not> privateEnable env \<or> privateFolderNorm env = [] then False
      else case file of
             None \<Rightarrow> True
           | Some f \<Rightarrow>
               let u = (case url f of None \<Rightarrow> [] | Some v \<Rightarrow> v)
               in includesStr u (slash # UPLOADS_FOLDER_NAME @ slash # privateFolderNorm env @ [slash]))"

definition exampleFile :: File where
  "exampleFile = \<lparr> stream = None, buffer = None, hash = js ''abc123'', ext = Some (js ''.png''), mime = None, name = None,
     url = Some (js ''/uploads/private/7/abc123.png''), previewUrl = None, path = None,
     folder = None, folderPath = None \<rparr>"

section \<open>Path utilities (\<open>utils/path.ts\<close>)\<close>

subsection \<open>String helpers\<close>

text \<open>
  \<open>s.split(d)\<close> and \<open>parts.join(d)\<close> for a one-unit separator, and
  \<open>s.replace(/[P]+/g, r)\<close>: every maximal run of code units in the class \<open>P\<close>
  becomes the single unit \<open>r\<close>.
\<close>

fun split_on :: "nat \<Rightarrow> jsstring \<Rightarrow> jsstring list" where
  "split_on d [] = [[]]"
| "split_on d (c # cs) =
     (if c = d then [] # split_on d cs
      else (case split_on d cs of p # ps \<Rightarrow> (c # p) # ps | [] \<Rightarrow> [[c]]))"

fun join_with :: "nat \<Rightarrow> jsstring list \<Rightarrow> jsstring" where
  "join_with d [] = []"
| "join_with d [p] = p"
| "join_with d (p # q # ps) = p @ d # join_with d (q # ps)"

fun replaceRuns :: "(nat \<Rightarrow> bool) \<Rightarrow> nat \<Rightarrow> jsstring \<Rightarrow> jsstring" where
  "replaceRuns P r [] = []"
| "replaceRuns P r [c] = (if P c then [r] else [c])"
| "replaceRuns P r (c # d # cs) =
     (if P c then (if P d then replaceRuns P r (d # cs) else r # replaceRuns P r (d # cs))
      else c # replaceRuns P r (d # cs))"

definition backslashToSlash :: "jsstring \<Rightarrow> jsstring" where
  "backslashToSlash s = map (\<lambda>c. if c = backslash then slash else c) s"

definition stripTrailing :: "(nat \<Rightarrow> bool) \<Rightarrow> jsstring \<Rightarrow> jsstring" where
  "stripTrailing P s = rev (dropWhile P (rev s))"

subsection \<open>sanitizePathDir\<close>

text \<open>
  \<open>String.prototype.normalize('NFD')\<close> is the runtime's canonical decomposition; it
  is the argument \<open>nfd\<close> of the sanitizers. The character classes are the ones of
  the source's regular expressions: \<open>[\u0300-\u036f]\<close>, \<open>[^a-zA-Z0-9._-]\<close> and
  \<open>[^a-zA-Z0-9 _-]\<close>.
\<close>

definition isCombiningMark :: "nat \<Rightarrow> bool" where
  "isCombiningMark c = (768 \<le> c \<and> c \<le> 879)"

definition isAlnum :: "nat \<Rightarrow> bool" where
  "isAlnum c = ((97 \<le> c \<and> c \<le> 122) \<or> (65 \<le> c \<and> c \<le> 90) \<or> (48 \<le> c \<and> c \<le> 57))"

definition allowedDirChar :: "nat \<Rightarrow> bool" where
  "allowedDirChar c = (isAlnum c \<or> c = dot \<or> c = 95 \<or> c = dash)"

definition allowedFolderChar :: "nat \<Rightarrow> bool" where
  "allowedFolderChar c = (isAlnum c \<or> c = space \<or> c = 95 \<or> c = dash)"

type_synonym normalizer = "jsstring \<Rightarrow> jsstring"

definition sanitizeSegment :: "normalizer \<Rightarrow> jsstring \<Rightarrow> jsstring" where
  "sanitizeSegment nfd part =
     (let s = nfd part;
          s = filter (\<lambda>c. \<not> isCombiningMark c) s;
          s = replaceRuns isSpace dash s;
          s = filter allowedDirChar s;
          s = replaceRuns (\<lambda>c. c = dash) dash s;
          s = dropWhile (\<lambda>c. c = dot \<or> c = dash) s;
          s = stripTrailing (\<lambda>c. c = dash) s
      in s)"

fun sanitizeParts :: "normalizer \<Rightarrow> jsstring list \<Rightarrow> jsstring list" where
  "sanitizeParts nfd [] = []"
| "sanitizeParts nfd (part # parts) =
     (let s = sanitizeSegment nfd part
      in if s = [] \<or> s = [dot] \<or> s = [dot, dot] then sanitizeParts nfd parts
         else (if length s > 128 then take 128 s else s) # sanitizeParts nfd parts)"

definition sanitizePathDir :: "normalizer \<Rightarrow> jsstring \<Rightarrow> jsstring" where
  "sanitizePathDir nfd input =
     (let raw = backslashToSlash (trim (nfd input))
      in if raw = [] then []
         else let parts = filter (\<lambda>p. p \<noteq> []) (map trim (split_on slash raw));
                  out = sanitizeParts nfd parts;
                  joined = join_with slash out
              in if length joined > 512 then take 512 joined else joined)"

subsection \<open>sanitizeAdminFolderName and sanitizeAdminFolderPath\<close>

definition sanitizeAdminFolderName :: "normalizer \<Rightarrow> jsstring \<Rightarrow> jsstring" where
  "sanitizeAdminFolderName nfd input =
     (let s = nfd input;
          s = filter (\<lambda>c. \<not> isCombiningMark c) s;
          s = filter allowedFolderChar s;
          s = trim (replaceRuns isSpace space s)
      in if length s > 128 then trim (take 128 s) else s)"

definition sanitizeAdminFolderPath :: "normalizer \<Rightarrow> jsstring \<Rightarrow> jsstring" where
  "sanitizeAdminFolderPath nfd input =
     (let raw = backslashToSlash (trim input)
      in if raw = [] then []
         else let parts = filter (\<lambda>p. p \<noteq> []) (map (sanitizeAdminFolderName nfd) (split_on slash raw))
              in join_with slash parts)"

subsection \<open>normalizeRelativeSlashPath\<close>

definition normalizeRelativeSlashPath :: "jsstring \<Rightarrow> jsstring" where
  "normalizeRelativeSlashPath v =
     stripTrailing (\<lambda>c. c = slash) (dropWhile (\<lambda>c. c = slash) (backslashToSlash (trim v)))"

subsection \<open>Node's \<open>path.resolve\<close> (POSIX)\<close>

text \<open>
  \<open>path.resolve\<close> prepends its arguments from the right until one is absolute,
  falling back to the working directory \<open>cwd\<close>, and normalises the result: empty
  and \<open>.\<close> segments are dropped, \<open>..\<close> removes the segment before it (and is
  dropped at the root of an absolute path), and the segments are joined by single
  slashes with no trailing slash. \<open>path.sep\<close> is \<open>/\<close>.
\<close>

fun normalizeSegments :: "bool \<Rightarrow> jsstring list \<Rightarrow> jsstring list \<Rightarrow> jsstring list" where
  "normalizeSegments allowAboveRoot acc [] = rev acc"
| "normalizeSegments allowAboveRoot acc (s # ss) =
     (if s = [] \<or> s = [dot] then normalizeSegments allowAboveRoot acc ss
      else if s = [dot, dot] then
        (if acc \<noteq> [] \<and> hd acc \<noteq> [dot, dot] then normalizeSegments allowAboveRoot (tl acc) ss
         else if allowAboveRoot then normalizeSegments allowAboveRoot ([dot, dot] # acc) ss
         else normalizeSegments allowAboveRoot acc ss)
      else normalizeSegments allowAboveRoot (s # acc) ss)"

definition normalizeString :: "jsstring \<Rightarrow> bool \<Rightarrow> jsstring" where
  "normalizeString p allowAboveRoot =
     join_with slash (normalizeSegments allowAboveRoot [] (split_on slash p))"

fun resolveLoop :: "jsstring list \<Rightarrow> jsstring \<Rightarrow> jsstring \<times> bool" where
  "resolveLoop [] resolvedPath = (resolvedPath, False)"
| "resolveLoop (p # ps) resolvedPath =
     (if p = [] then resolveLoop ps resolvedPath
      else if hd p = slash then (p @ slash # resolvedPath, True)
      else resolveLoop ps (p @ slash # resolvedPath))"

definition path_resolve :: "jsstring \<Rightarrow> jsstring list \<Rightarrow> jsstring" where
  "path_resolve cwd args =
     (let (resolvedPath, resolvedAbsolute) = resolveLoop (rev args @ [cwd]) [];
          normalized = normalizeString resolvedPath (\<not> resolvedAbsolute)
      in if resolvedAbsolute then slash # normalized
         else if normalized \<noteq> [] then normalized else [dot])"

subsection \<open>safeResolveUnderRoot\<close>

definition safeResolveUnderRoot :: "jsstring \<Rightarrow> jsstring \<Rightarrow> jsstring \<Rightarrow> jsstring option" where
  "safeResolveUnderRoot cwd root rel =
     (let rootAbs = path_resolve cwd [root];
          abs = path_resolve cwd [rootAbs, rel]
      in if abs = rootAbs then None
         else if \<not> startsWith abs (rootAbs @ [slash]) then None
         else Some abs)"

text \<open>
  What it means for a resolved path to lie strictly inside a root: it continues the
  root after a separator, by at least one segment, and none of the further segments
  is empty, \<open>.\<close> or \<open>..\<close>.
\<close>

definition plainSegment :: "jsstring \<Rightarrow> bool" where
  "plainSegment s = (s \<noteq> [] \<and> s \<noteq> [dot] \<and> s \<noteq> [dot, dot] \<and> slash \<notin> set s)"

definition strictlyInside :: "jsstring \<Rightarrow> jsstring \<Rightarrow> bool" where
  "strictlyInside rootAbs p =
     (startsWith p (rootAbs @ [slash])
      \<and> list_all plainSegment (split_on slash (drop (length rootAbs + 1) p)))"

subsection \<open>A table-driven decomposition for concrete runs\<close>

text \<open>
  The canonical decompositions of the Latin-1 letters, used only to run the sanitizers
  on concrete inputs; every other code unit is left as it is.
\<close>

definition latin1Table :: "(nat \<times> jsstring) list" where
  "latin1Table = [(192, [65, 768]), (193, [65, 769]), (194, [65, 770]), (195, [65, 771]), (196, [65, 776]), (197, [65, 778]), (199, [67, 807]), (200, [69, 768]), (201, [69, 769]), (202, [69, 770]), (203, [69, 776]), (204, [73, 768]), (205, [73, 769]), (206, [73, 770]), (207, [73, 776]), (209, [78, 771]), (210, [79, 768]), (211, [79, 769]), (212, [79, 770]), (213, [79, 771]), (214, [79, 776]), (217, [85, 768]), (218, [85, 769]), (219, [85, 770]), (220, [85, 776]), (221, [89, 769]), (224, [97, 768]), (225, [97, 769]), (226, [97, 770]), (227, [97, 771]), (228, [97, 776]), (229, [97, 778]), (231, [99, 807]), (232, [101, 768]), (233, [101, 769]), (234, [101, 770]), (235, [101, 776]), (236, [105, 768]), (237, [105, 769]), (238, [105, 770]), (239, [105, 776]), (241, [110, 771]), (242, [111, 768]), (243, [111, 769]), (244, [111, 770]), (245, [111, 771]), (246, [111, 776]), (249, [117, 768]), (250, [117, 769]), (251, [117, 770]), (252, [117, 776]), (253, [121, 769]), (255, [121, 776])]"

definition latin1Nfd :: normalizer where
  "latin1Nfd s = concat (map (\<lambda>c. case map_of latin1Table c of Some d \<Rightarrow> d | None \<Rightarrow> [c]) s)"

text \<open>
  Canonical decomposition leaves a string of ASCII code units unchanged; this is the
  one fact about \<open>normalize('NFD')\<close> that the properties below rely on.
\<close>

definition asciiFixed :: "normalizer \<Rightarrow> bool" where
  "asciiFixed nfd = (\<forall>s. list_all (\<lambda>c. c < 128) s \<longrightarrow> nfd s = s)"

text \<open>
  The shape of a sanitized folder name: allowed characters only, no two spaces in a
  row, no space at either end, at most 128 units.
\<close>

definition doubleSpaceFree :: "jsstring \<Rightarrow> bool" where
  "doubleSpaceFree s = (\<not> includesStr s [space, space])"

definition folderNormal :: "jsstring \<Rightarrow> bool" where
  "folderNormal s =
     (list_all allowedFolderChar s \<and> doubleSpaceFree s
      \<and> (s \<noteq> [] \<longrightarrow> hd s \<noteq> space \<and> last s \<noteq> space)
      \<and> length s \<le> 128)"

text \<open>
  The normal form of a directory segment, the segments that \<open>sanitizePathDir\<close>
  hands to \<open>sanitizeParts\<close>, and the inputs on which neither cap cuts.
\<close>

definition doubleDashFree :: "jsstring \<Rightarrow> bool" where
  "doubleDashFree s = (\<not> includesStr s [dash, dash])"

definition dirNormal :: "jsstring \<Rightarrow> bool" where
  "dirNormal s =
     (list_all allowedDirChar s \<and> doubleDashFree s
      \<and> s \<noteq> [] \<and> hd s \<noteq> dot \<and> hd s \<noteq> dash \<and> last s \<noteq> dash)"

definition partsOf :: "normalizer \<Rightarrow> jsstring \<Rightarrow> jsstring list" where
  "partsOf nfd input =
     filter (\<lambda>p. p \<noteq> []) (map trim (split_on slash (backslashToSlash (trim (nfd input)))))"

definition withinCaps :: "normalizer \<Rightarrow> jsstring \<Rightarrow> bool" where
  "withinCaps nfd input =
     (list_all (\<lambda>p. length (sanitizeSegment nfd p) \<le> 128) (partsOf nfd input)
      \<and> length (join_with slash (sanitizeParts nfd (partsOf nfd input))) \<le> 512)"

text \<open>
  A directory hint of one segment, 129 units long: 127 times \<open>a\<close>, a hyphen and
  \<open>b\<close>; and its first 128 units.
\<close>

definition longSegment :: jsstring where
  "longSegment = replicate 127 97 @ [dash, 98]"

definition cutSegment :: jsstring where
  "cutSegment = replicate 127 97 @ [dash]"

section \<open>Node's \<open>path\<close> and \<open>fs\<close>\<close>

subsection \<open>\<open>path.normalize\<close>, \<open>path.join\<close>, \<open>path.dirname\<close>, \<open>path.extname\<close> (POSIX)\<close>

text \<open>
  \<open>path.join\<close> joins its non-empty arguments with a slash and normalises;
  \<open>path.dirname\<close> cuts at the last slash that is followed by a segment, trailing
  slashes ignored; \<open>path.extname\<close> is the part of the last segment from its last
  dot on, empty when there is no dot, when the dot starts the segment, or when the
  segment is \<open>..\<close>.
\<close>

definition path_normalize :: "jsstring \<Rightarrow> jsstring" where
  "path_normalize p =
     (if p = [] then [dot]
      else let isAbsolute = (hd p = slash);
               trailingSeparator = (last p = slash);
               n = normalizeString p (\<not> isAbsolute)
           in if n = [] then (if isAbsolute then [slash] else if trailingSeparator then [dot, slash] else [dot])
              else let n' = (if trailingSeparator then n @ [slash] else n)
                   in if isAbsolute then slash # n' else n')"

definition path_join :: "jsstring list \<Rightarrow> jsstring" where
  "path_join args =
     (let joined = join_with slash (filter (\<lambda>a. a \<noteq> []) args)
      in if joined = [] then [dot] else path_normalize joined)"

definition path_dirname :: "jsstring \<Rightarrow> jsstring" where
  "path_dirname p =
     (if p = [] then [dot]
      else let hasRoot = (hd p = slash);
               q = stripTrailing (\<lambda>c. c = slash) (tl p)
           in if slash \<notin> set q then (if hasRoot then [slash] else [dot])
              else let end = length q - length (takeWhile (\<lambda>c. c \<noteq> slash) (rev q))
                   in if hasRoot \<and> end = 1 then [slash, slash] else take end p)"

definition path_basename :: "jsstring \<Rightarrow> jsstring" where
  "path_basename p = rev (takeWhile (\<lambda>c. c \<noteq> slash) (rev (stripTrailing (\<lambda>c. c = slash) p)))"

definition path_extname :: "jsstring \<Rightarrow> jsstring" where
  "path_extname p =
     (let b = path_basename p;
          afterDot = takeWhile (\<lambda>c. c \<noteq> dot) (rev b)
      in if dot \<notin> set b then []
         else if length afterDot + 1 = length b then []
         else if b = [dot, dot] then []
         else drop (length b - length afterDot - 1) b)"

subsection \<open>The file system\<close>

text \<open>
  The file system is a list of entries, each an absolute normalised path with the
  kind of node found there; the root directory \<open>/\<close> is always there.
  \<open>fse.ensureDir\<close> creates the missing directories of a path and fails on a
  regular file in the way; writing a file needs its directory and fails on a
  directory of the same name.
\<close>

datatype node = RegularFile "byte list" | Directory

type_synonym filesystem = "(jsstring \<times> node) list"

definition existsSync :: "filesystem \<Rightarrow> jsstring \<Rightarrow> bool" where
  "existsSync fs p = (p = [slash] \<or> map_of fs p \<noteq> None)"

definition isFile :: "filesystem \<Rightarrow> jsstring \<Rightarrow> bool" where
  "isFile fs p = (case map_of fs p of Some (RegularFile d) \<Rightarrow> True | _ \<Rightarrow> False)"

definition isDirectory :: "filesystem \<Rightarrow> jsstring \<Rightarrow> bool" where
  "isDirectory fs p = (p = [slash] \<or> map_of fs p = Some Directory)"

definition removeEntry :: "filesystem \<Rightarrow> jsstring \<Rightarrow> filesystem" where
  "removeEntry fs p = filter (\<lambda>e. fst e \<noteq> p) fs"

definition segmentsOf :: "jsstring \<Rightarrow> jsstring list" where
  "segmentsOf p = filter (\<lambda>s. s \<noteq> []) (split_on slash p)"

definition dirChain :: "jsstring \<Rightarrow> jsstring list" where
  "dirChain d = map (\<lambda>k. slash # join_with slash (take k (segmentsOf d))) [1..<Suc (length (segmentsOf d))]"

definition ensureDir :: "filesystem \<Rightarrow> jsstring \<Rightarrow> error + filesystem" where
  "ensureDir fs d =
     (if list_ex (isFile fs) (dirChain d) then Inl ENOTDIR
      else Inr (fs @ map (\<lambda>a. (a, Directory)) (filter (\<lambda>a. \<not> existsSync fs a) (dirChain d))))"

definition writeFile :: "filesystem \<Rightarrow> jsstring \<Rightarrow> byte list \<Rightarrow> error + filesystem" where
  "writeFile fs p content =
     (if isDirectory fs p then Inl EISDIR
      else if \<not> isDirectory fs (path_dirname p) then Inl ENOENT
      else Inr ((p, RegularFile content) # removeEntry fs p))"

section \<open>Upload\<close>

text \<open>
  \<open>join(...segments)\<close> of \<open>index.ts\<close>: every segment but the last gets a slash
  unless it is empty or already ends with one.
\<close>

fun join :: "jsstring list \<Rightarrow> jsstring" where
  "join [] = js ''undefined''"
| "join [l] = l"
| "join (l # ls) = (if endsWith l [slash] \<or> l = [] then l else l @ [slash]) @ join ls"

definition orEmpty :: "jsstring option \<Rightarrow> jsstring" where
  "orEmpty v = (case v of None \<Rightarrow> [] | Some s \<Rightarrow> s)"

definition upload :: "normalizer \<Rightarrow> jsstring \<Rightarrow> Env \<Rightarrow> filesystem \<Rightarrow> File \<Rightarrow> error + filesystem \<times> File" where
  "upload nfd uuid env fs file =
     (let rawPath = orEmpty (path file);
          dynamicPath = (if rawPath \<noteq> [] then sanitizePathDir nfd rawPath else [])
      in if strictPathDir env \<and> rawPath \<noteq> [] \<and> dynamicPath = [] then Inl InvalidFilePath
         else
           let filename = (if renameToUuid env then uuid @ [95] @ hash file @ orEmpty (ext file)
                           else hash file @ orEmpty (ext file));
               objectPath = join [prefix env, dynamicPath, filename];
               finalUploadPath = path_join [uploadPath env, objectPath]
           in case ensureDir fs (path_dirname finalUploadPath) of
                Inl e \<Rightarrow> Inl e
              | Inr fs1 \<Rightarrow>
                  (case (case stream file of
                           Some content \<Rightarrow> writeFile fs1 finalUploadPath content
                         | None \<Rightarrow>
                             (case buffer file of
                                Some content \<Rightarrow> writeFile fs1 finalUploadPath content
                              | None \<Rightarrow> Inl MissingStreamOrBuffer)) of
                     Inl e \<Rightarrow> Inl e
                   | Inr fs2 \<Rightarrow>
                       Inr (fs2,
                            file\<lparr>url := Some (case baseUrl env of
                                                 Some b \<Rightarrow> if b \<noteq> [] then join [b, objectPath]
                                                           else slash # UPLOADS_FOLDER_NAME @ slash # objectPath
                                               | None \<Rightarrow> slash # UPLOADS_FOLDER_NAME @ slash # objectPath)\<rparr>)))"

text \<open>
  The scenario of the specification: the hint \<open>Cafe/Arvore\<close> in precomposed
  form, what canonical decomposition makes of it and of its two segments, and a store
  that holds the uploads root and nothing else.
\<close>

definition cafeHint :: jsstring where
  "cafeHint = js ''Caf'' @ [233, 47, 195] @ js ''rvore''"

definition cafeDecomposed :: jsstring where
  "cafeDecomposed = js ''Cafe'' @ [769, 47, 65, 771] @ js ''rvore''"

definition cafeNormalizer :: "normalizer \<Rightarrow> bool" where
  "cafeNormalizer nfd =
     (nfd cafeHint = cafeDecomposed
      \<and> nfd (js ''Cafe'' @ [769]) = js ''Cafe'' @ [769]
      \<and> nfd ([65, 771] @ js ''rvore'') = [65, 771] @ js ''rvore'')"

definition cafeFile :: File where
  "cafeFile = \<lparr> stream = None, buffer = Some [137, 80, 78, 71], hash = js ''abc123'',
     ext = Some (js ''.png''), mime = None, name = None, url = None, previewUrl = None,
     path = Some cafeHint, folder = None, folderPath = None \<rparr>"

definition emptyStore :: filesystem where
  "emptyStore = [(js ''/srv'', Directory), (js ''/srv/app'', Directory), (js ''/srv/app/public'', Directory),
     (js ''/srv/app/public/uploads'', Directory)]"


section \<open>Signed URLs\<close>

subsection \<open>\<open>Buffer\<close> and base64url\<close>

text \<open>
  \<open>buf.toString('base64url')\<close>: three bytes give four sextets, a rest of one or two
  bytes gives two or three, and there is no padding. The alphabet is
  \<open>A-Z a-z 0-9 - _\<close>.
\<close>

definition b64urlChar :: "nat \<Rightarrow> nat" where
  "b64urlChar n = (if n < 26 then 65 + n else if n < 52 then 71 + n
                   else if n < 62 then n - 4 else if n = 62 then 45 else 95)"

fun sextetsOf :: "byte list \<Rightarrow> nat list" where
  "sextetsOf (a # b # c # rest) =
     (let x = unat a; y = unat b; z = unat c
      in x div 4 # ((x mod 4) * 16 + y div 16) # ((y mod 16) * 4 + z div 64) # (z mod 64)
         # sextetsOf rest)"
| "sextetsOf [a, b] =
     (let x = unat a; y = unat b
      in [x div 4, (x mod 4) * 16 + y div 16, (y mod 16) * 4])"
| "sextetsOf [a] = (let x = unat a in [x div 4, (x mod 4) * 16])"
| "sextetsOf [] = []"

definition base64urlEncode :: "byte list \<Rightarrow> jsstring" where
  "base64urlEncode bs = map b64urlChar (sextetsOf bs)"

text \<open>
  \<open>Buffer.from(s, 'base64url')\<close> never throws: it accepts both the URL-safe and the
  standard alphabet, skips every other code unit, stops at the first \<open>=\<close>, and
  drops a final lone sextet.
\<close>

definition unbase64 :: "nat \<Rightarrow> nat option" where
  "unbase64 c = (if 65 \<le> c \<and> c \<le> 90 then Some (c - 65)
                 else if 97 \<le> c \<and> c \<le> 122 then Some (c - 71)
                 else if 48 \<le> c \<and> c \<le> 57 then Some (c + 4)
                 else if c = 45 \<or> c = 43 then Some 62
                 else if c = 95 \<or> c = 47 then Some 63
                 else None)"

fun decodeSextets :: "nat list \<Rightarrow> byte list" where
  "decodeSextets (a # b # c # d # rest) =
     of_nat (a * 4 + b div 16) # of_nat ((b mod 16) * 16 + c div 4)
       # of_nat ((c mod 4) * 64 + d) # decodeSextets rest"
| "decodeSextets [a, b, c] = [of_nat (a * 4 + b div 16), of_nat ((b mod 16) * 16 + c div 4)]"
| "decodeSextets [a, b] = [of_nat (a * 4 + b div 16)]"
| "decodeSextets [a] = []"
| "decodeSextets [] = []"

definition base64urlDecode :: "jsstring \<Rightarrow> byte list" where
  "base64urlDecode s =
     decodeSextets (List.map_filter unbase64 (takeWhile (\<lambda>c. c \<noteq> 61) s))"

text \<open>
  \<open>crypto.timingSafeEqual(a, b)\<close> throws a \<open>RangeError\<close> when the two buffers differ
  in byte length, and compares them otherwise.
\<close>

definition timingSafeEqual :: "byte list \<Rightarrow> byte list \<Rightarrow> error + bool" where
  "timingSafeEqual a b =
     (if length a \<noteq> length b then Inl ERR_CRYPTO_TIMING_SAFE_EQUAL_LENGTH else Inr (a = b))"

subsection \<open>Numbers\<close>

text \<open>
  The expiry is an integer number of epoch seconds. Numbers are modelled as unbounded
  integers, which is exact below \<open>2^53\<close>; \<open>numberToString\<close> is the template
  literal's conversion, the decimal digits with a sign, and \<open>parseInt10\<close> is
  \<open>parseInt(s, 10)\<close>, with \<open>None\<close> for \<open>NaN\<close>.
\<close>

fun digitsOf :: "nat \<Rightarrow> jsstring" where
  "digitsOf n = (if n < 10 then [48 + n] else digitsOf (n div 10) @ [48 + n mod 10])"

declare digitsOf.simps [simp del]

definition numberToString :: "int \<Rightarrow> jsstring" where
  "numberToString i = (if i < 0 then dash # digitsOf (nat (- i)) else digitsOf (nat i))"

definition isDigit :: "nat \<Rightarrow> bool" where
  "isDigit c = (48 \<le> c \<and> c \<le> 57)"

definition digitsValue :: "jsstring \<Rightarrow> nat" where
  "digitsValue ds = foldl (\<lambda>acc c. acc * 10 + (c - 48)) 0 ds"

definition parseInt10 :: "jsstring \<Rightarrow> int option" where
  "parseInt10 s =
     (let t = dropWhile isSpace s;
          neg = (t \<noteq> [] \<and> hd t = 45);
          u = (if t \<noteq> [] \<and> (hd t = 45 \<or> hd t = 43) then tl t else t);
          ds = takeWhile isDigit u
      in if ds = [] then None
         else Some (if neg then - int (digitsValue ds) else int (digitsValue ds)))"

subsection \<open>signPrivateUrl and verifyPrivateUrlToken\<close>

text \<open>
  HMAC-SHA256 is Node's: \<open>crypto.createHmac('sha256', secret).update(payload).digest()\<close>
  is the argument \<open>hmac\<close>, a function from the secret and the payload to a 256-bit
  digest, whose 32 bytes are read most significant first.
\<close>

type_synonym hmac_sha256 = "jsstring \<Rightarrow> jsstring \<Rightarrow> 256 word"

definition digestBytes :: "256 word \<Rightarrow> byte list" where
  "digestBytes w = map (\<lambda>i. ucast (drop_bit (8 * (31 - i)) w)) [0..<32]"

definition signPrivateUrl :: "hmac_sha256 \<Rightarrow> jsstring \<Rightarrow> jsstring \<Rightarrow> int \<Rightarrow> jsstring" where
  "signPrivateUrl hmac secret requestPath expiresAt =
     (let payload = requestPath @ [10] @ numberToString expiresAt;
          digest = digestBytes (hmac secret payload)
      in base64urlEncode digest)"

definition verifyPrivateUrlToken ::
  "hmac_sha256 \<Rightarrow> jsstring \<Rightarrow> jsstring \<Rightarrow> int \<Rightarrow> jsstring \<Rightarrow> error + bool" where
  "verifyPrivateUrlToken hmac secret requestPath expiresAt token =
     (if secret = [] \<or> token = [] then Inr False
      else let expected = signPrivateUrl hmac secret requestPath expiresAt
           in timingSafeEqual (base64urlDecode expected) (base64urlDecode token))"

text \<open>
  The signed-URL check of the private gate (\<open>index.ts\<close>, lines 435 to 443), for a
  request not yet allowed: \<open>secret\<close> is \<open>privateSecret\<close>, \<open>token\<close> and
  \<open>expires\<close> are the query parameters
  (\<open>None\<close> when absent or not a string), \<open>now\<close> is \<open>Date.now()\<close> in
  milliseconds.
\<close>

definition signedUrlCheck ::
  "hmac_sha256 \<Rightarrow> jsstring \<Rightarrow> jsstring \<Rightarrow> jsstring option \<Rightarrow> jsstring option \<Rightarrow> int
     \<Rightarrow> error + bool" where
  "signedUrlCheck hmac secret ctxPath token expires now =
     (if secret = [] then Inr False
      else let expiresNum = (case expires of None \<Rightarrow> None | Some e \<Rightarrow> parseInt10 e)
           in case (token, expiresNum) of
                (Some t, Some n) \<Rightarrow>
                  if t \<noteq> [] \<and> n * 1000 > now
                  then verifyPrivateUrlToken hmac secret ctxPath n t
                  else Inr False
              | _ \<Rightarrow> Inr False)"

text \<open>
  A stand-in keyed function, used only to run the definitions on concrete inputs. It is
  not HMAC-SHA256.
\<close>

definition lengthMac :: hmac_sha256 where
  "lengthMac secret payload = of_nat (length secret + 7 * length payload)"

section \<open>The private-access gate\<close>

text \<open>
  The middleware registered by \<open>init\<close> when private mode is on. A request is its
  method, its path, the \<open>authorization\<close> header and the two query parameters (each
  \<open>None\<close> when absent or not a string). The outcome is \<open>next()\<close>, a status, or
  the file streamed as the body. The host's verifiers are arguments: the admin token
  service's \<open>decode\<close> (whether what it returns is truthy), the users-permissions
  \<open>jwt.verify\<close> (the \<open>id\<close> or \<open>sub\<close> of what it decodes) and the user lookup (the
  user's document id as a string, empty when there is no user); each may be missing
  or throw.
\<close>

datatype response = Next | Status nat | Body jsstring

record Request =
  ctxMethod :: jsstring
  ctxPath :: jsstring
  authorization :: "jsstring option"
  queryToken :: "jsstring option"
  queryExpires :: "jsstring option"

record Verifiers =
  adminDecode :: "(jsstring \<Rightarrow> error + bool) option"
  jwtVerify :: "(jsstring \<Rightarrow> error + nat option) option"
  userDocumentId :: "nat \<Rightarrow> error + jsstring"

text \<open>
  \<open>toLowerCase\<close> on ASCII letters; the header is only compared with \<open>bearer \<close>,
  no letter of which is the lower case of a code point outside ASCII.
\<close>

definition toLowerAscii :: "nat \<Rightarrow> nat" where
  "toLowerAscii c = (if 65 \<le> c \<and> c \<le> 90 then c + 32 else c)"

definition bearerTokenOf :: "jsstring option \<Rightarrow> jsstring" where
  "bearerTokenOf authHeader =
     (case authHeader of
        None \<Rightarrow> []
      | Some h \<Rightarrow> if startsWith (map toLowerAscii h) (js ''bearer '') then trim (drop 7 h) else [])"

text \<open>
  The two bearer checks, each inside its own \<open>try\<close>: an exception is the check
  failing.
\<close>

definition adminAllows :: "Verifiers \<Rightarrow> jsstring \<Rightarrow> bool" where
  "adminAllows v bearerToken =
     (case adminDecode v of
        None \<Rightarrow> False
      | Some decode \<Rightarrow> (case decode bearerToken of Inl e \<Rightarrow> False | Inr decoded \<Rightarrow> decoded))"

definition ownerAllows :: "Verifiers \<Rightarrow> jsstring \<Rightarrow> jsstring \<Rightarrow> bool" where
  "ownerAllows v documentIdInPath bearerToken =
     (case jwtVerify v of
        None \<Rightarrow> False
      | Some verify \<Rightarrow>
          (case verify bearerToken of
             Inl e \<Rightarrow> False
           | Inr None \<Rightarrow> False
           | Inr (Some userId) \<Rightarrow>
               (case userDocumentId v userId of
                  Inl e \<Rightarrow> False
                | Inr d \<Rightarrow> d \<noteq> [] \<and> documentIdInPath = d)))"

definition uploadsPrefix :: jsstring where
  "uploadsPrefix = slash # UPLOADS_FOLDER_NAME @ [slash]"

definition privateUrlPrefix :: "Env \<Rightarrow> jsstring" where
  "privateUrlPrefix env = uploadsPrefix @ privateFolderNorm env @ [slash]"

definition privateGate ::
  "hmac_sha256 \<Rightarrow> Env \<Rightarrow> Verifiers \<Rightarrow> filesystem \<Rightarrow> int \<Rightarrow> Request \<Rightarrow> error + response" where
  "privateGate hmac env v fs now req =
     (if \<not> (privateEnable env \<and> privateFolderNorm env \<noteq> []) then Inr Next
      else if ctxMethod req \<noteq> js ''GET'' \<or> \<not> startsWith (ctxPath req) (privateUrlPrefix env)
      then Inr Next
      else
           let pathAfterUploads = drop (length uploadsPrefix) (ctxPath req);
               objectPath = backslashToSlash (dropWhile (\<lambda>c. c = slash) pathAfterUploads)
           in case safeResolveUnderRoot (processCwd env) (uploadPath env) objectPath of
                None \<Rightarrow> Inr (Status 404)
              | Some absPath \<Rightarrow>
                  if \<not> existsSync fs absPath \<or> \<not> isFile fs absPath then Inr (Status 404)
                  else
                    let pathSegments = filter (\<lambda>s. s \<noteq> []) (split_on slash pathAfterUploads);
                        documentIdInPath = (if 1 < length pathSegments then pathSegments ! 1 else []);
                        bearerToken = bearerTokenOf (authorization req);
                        allowed = (bearerToken \<noteq> []
                                   \<and> (adminAllows v bearerToken
                                        \<or> ownerAllows v documentIdInPath bearerToken))
                    in if allowed then Inr (Body absPath)
                       else (case signedUrlCheck hmac (privateSecret env) (ctxPath req)
                                    (queryToken req) (queryExpires req) now of
                               Inl e \<Rightarrow> Inl e
                             | Inr ok \<Rightarrow> if ok then Inr (Body absPath) else Inr (Status 403)))"

text \<open>A store with one private file, verifiers that throw, and a signed request.\<close>

definition privateStore :: filesystem where
  "privateStore = emptyStore @ [(js ''/srv/app/public/uploads/private'', Directory),
     (js ''/srv/app/public/uploads/private/7'', Directory),
     (js ''/srv/app/public/uploads/private/7/abc123.png'', RegularFile [137, 80, 78, 71])]"

definition throwingVerifiers :: Verifiers where
  "throwingVerifiers = \<lparr> adminDecode = Some (\<lambda>t. Inl VerifierFault),
     jwtVerify = Some (\<lambda>t. Inl VerifierFault), userDocumentId = (\<lambda>i. Inr []) \<rparr>"

definition examplePath :: jsstring where
  "examplePath = js ''/uploads/private/7/abc123.png''"

definition exampleToken :: jsstring where
  "exampleToken = signPrivateUrl lengthMac (js ''s3cret'') examplePath 1730000060"

definition exampleRequest :: Request where
  "exampleRequest = \<lparr> ctxMethod = js ''GET'', ctxPath = examplePath,
     authorization = Some (js ''Bearer not-a-token''),
     queryToken = Some exampleToken, queryExpires = Some (js ''1730000060'') \<rparr>"

section \<open>Metadata-folder cleanup\<close>

text \<open>
  The host's database of Media Library folders and files, as far as the provider
  queries it: a folder row has an id, a path and a parent; a file row has a hash, a
  folder and a folder path. Every query can throw; \<open>throws\<close> says which ones do.
  Deleting a folder (by the folder service's \<open>deleteByIds\<close> or by the query
  engine) removes its row.
\<close>

record FolderRow =
  rowId :: nat
  rowPath :: jsstring
  rowParent :: "nat option"

record FileRow =
  fileHash :: jsstring
  fileFolder :: "nat option"
  fileFolderPath :: "jsstring option"

datatype query =
    FolderByPath jsstring
  | FolderById nat
  | FileByHash jsstring
  | CountChildFolders nat
  | CountOtherFiles jsstring jsstring
  | DeleteFolder nat

record Database =
  folderRows :: "FolderRow list"
  fileRows :: "FileRow list"
  throws :: "query \<Rightarrow> bool"

definition findFolderByPath :: "Database \<Rightarrow> jsstring \<Rightarrow> error + FolderRow option" where
  "findFolderByPath db p =
     (if throws db (FolderByPath p) then Inl DatabaseFault
      else Inr (find (\<lambda>f. rowPath f = p) (folderRows db)))"

definition findFolderById :: "Database \<Rightarrow> nat \<Rightarrow> error + FolderRow option" where
  "findFolderById db i =
     (if throws db (FolderById i) then Inl DatabaseFault
      else Inr (find (\<lambda>f. rowId f = i) (folderRows db)))"

definition findFileByHash :: "Database \<Rightarrow> jsstring \<Rightarrow> error + FileRow option" where
  "findFileByHash db h =
     (if throws db (FileByHash h) then Inl DatabaseFault
      else Inr (find (\<lambda>r. fileHash r = h) (fileRows db)))"

definition countChildFolders :: "Database \<Rightarrow> nat \<Rightarrow> error + nat" where
  "countChildFolders db i =
     (if throws db (CountChildFolders i) then Inl DatabaseFault
      else Inr (length (filter (\<lambda>f. rowParent f = Some i) (folderRows db))))"

definition countOtherFiles :: "Database \<Rightarrow> jsstring \<Rightarrow> jsstring \<Rightarrow> error + nat" where
  "countOtherFiles db p h =
     (if throws db (CountOtherFiles p h) then Inl DatabaseFault
      else Inr (length (filter (\<lambda>r. fileFolderPath r = Some p \<and> fileHash r \<noteq> h) (fileRows db))))"

definition removeFolder :: "Database \<Rightarrow> nat \<Rightarrow> Database" where
  "removeFolder db i = db\<lparr>folderRows := filter (\<lambda>f. rowId f \<noteq> i) (folderRows db)\<rparr>"

definition deleteFolderById :: "Database \<Rightarrow> nat \<Rightarrow> error + Database" where
  "deleteFolderById db i =
     (if throws db (DeleteFolder i) then Inl DatabaseFault else Inr (removeFolder db i))"

text \<open>\<open>!folderId\<close>: an id is falsy when it is \<open>null\<close> or \<open>0\<close>.\<close>

definition truthyId :: "nat option \<Rightarrow> bool" where
  "truthyId i = (case i of None \<Rightarrow> False | Some n \<Rightarrow> n \<noteq> 0)"

text \<open>
  The \<open>while (true)\<close> loop of \<open>maybeCleanupEmptyAdminFolders\<close>. It returns the
  database and the ids whose deletion it requested, in order. Each round that goes on
  has removed a folder row, so the loop ends.
\<close>

function walkUpFolders :: "Database \<Rightarrow> jsstring \<Rightarrow> nat \<Rightarrow> Database \<times> nat list" where
  "walkUpFolders db h folderId =
     (case findFolderById db folderId of
        Inl e \<Rightarrow> (db, [])
      | Inr None \<Rightarrow> (db, [])
      | Inr (Some currentFolder) \<Rightarrow>
          (case countChildFolders db folderId of
             Inl e \<Rightarrow> (db, [])
           | Inr childCount \<Rightarrow>
               if childCount > 0 then (db, [])
               else
                 (case countOtherFiles db (rowPath currentFolder) h of
                    Inl e \<Rightarrow> (db, [])
                  | Inr fileCount \<Rightarrow>
                      if fileCount > 0 then (db, [])
                      else
                        (case deleteFolderById db folderId of
                           Inl e \<Rightarrow> (db, [folderId])
                         | Inr db' \<Rightarrow>
                             if \<not> truthyId (rowParent currentFolder) then (db', [folderId])
                             else (case walkUpFolders db' h (the (rowParent currentFolder)) of
                                     (db'', requested) \<Rightarrow> (db'', folderId # requested))))))"
  by pat_completeness auto

termination
proof (relation "measure (\<lambda>(db, h, i). length (folderRows db))")
  show "wf (measure (\<lambda>(db, h, i). length (folderRows db)))" by simp
next
  have shorter: "length (filter (\<lambda>y. \<not> P y) xs) < length xs"
    if "find P xs = Some x" for P :: "FolderRow \<Rightarrow> bool" and xs x
    using that
  proof (induction xs)
    case Nil then show ?case by simp
  next
    case (Cons a xs)
    show ?case
    proof (cases "P a")
      case True
      have "length (filter (\<lambda>y. \<not> P y) xs) \<le> length xs" by simp
      then have "length (filter (\<lambda>y. \<not> P y) xs) < Suc (length xs)" by (rule le_imp_less_Suc)
      with True show ?thesis by simp
    next
      case False
      with Cons show ?thesis by simp
    qed
  qed
  fix db :: Database and h :: jsstring and folderId :: nat and x y currentFolder z childCount w fileCount u db'
  assume a: "findFolderById db folderId = Inr y" "y = Some currentFolder"
    and d: "deleteFolderById db folderId = Inr db'"
  have f: "find (\<lambda>f. rowId f = folderId) (folderRows db) = Some currentFolder"
    using a by (auto simp: findFolderById_def split: if_splits)
  have e: "db' = removeFolder db folderId"
    using d by (auto simp: deleteFolderById_def split: if_splits)
  show "((db', h, the (rowParent currentFolder)), db, h, folderId)
          \<in> measure (\<lambda>(db, h, i). length (folderRows db))"
    using shorter [OF f] by (simp add: e removeFolder_def)
qed

declare walkUpFolders.simps [simp del]

text \<open>
  Where the walk starts: the file's \<open>folder\<close>, else the folder at the file's
  \<open>folderPath\<close>, else the folder of the database row with the file's hash.
\<close>

definition resolveFolderId :: "Database \<Rightarrow> File \<Rightarrow> nat option" where
  "resolveFolderId db file =
     (let folderId = folder file;
          folderPathFromPayload =
            (case folderPath file of
               None \<Rightarrow> None
             | Some s \<Rightarrow> if trim s \<noteq> [] then Some (trim s) else None);
          folderId =
            (if \<not> truthyId folderId
             then (case folderPathFromPayload of
                     None \<Rightarrow> folderId
                   | Some p \<Rightarrow>
                       (case findFolderByPath db p of
                          Inl e \<Rightarrow> None
                        | Inr folderByPath \<Rightarrow> map_option rowId folderByPath))
             else folderId);
          folderId =
            (if \<not> truthyId folderId
             then (case findFileByHash db (hash file) of
                     Inl e \<Rightarrow> None
                   | Inr dbFile \<Rightarrow>
                       (let fromRow = (case dbFile of None \<Rightarrow> None | Some r \<Rightarrow> fileFolder r);
                            rowFolderPath = (case dbFile of None \<Rightarrow> None | Some r \<Rightarrow> fileFolderPath r)
                        in if \<not> truthyId fromRow \<and> rowFolderPath \<noteq> None \<and> rowFolderPath \<noteq> Some []
                           then (case findFolderByPath db (the rowFolderPath) of
                                   Inl e \<Rightarrow> None
                                 | Inr folderByPath \<Rightarrow> map_option rowId folderByPath)
                           else fromRow))
             else folderId)
      in folderId)"

definition maybeCleanupEmptyAdminFolders :: "Env \<Rightarrow> Database \<Rightarrow> File \<Rightarrow> Database \<times> nat list" where
  "maybeCleanupEmptyAdminFolders env db file =
     (if \<not> cleanupAdminFolders env then (db, [])
      else let folderId = resolveFolderId db file
           in if \<not> truthyId folderId then (db, [])
              else walkUpFolders db (hash file) (the folderId))"

text \<open>
  A folder may go when it exists, no folder has it as parent, and no file other than
  the one being deleted (told by its hash) lies under its path. A list of requests is
  in order when each folder may go in the database left by the requests before it.
\<close>

definition eligible :: "Database \<Rightarrow> jsstring \<Rightarrow> nat \<Rightarrow> bool" where
  "eligible db h i =
     (case find (\<lambda>f. rowId f = i) (folderRows db) of
        None \<Rightarrow> False
      | Some f \<Rightarrow>
          filter (\<lambda>g. rowParent g = Some i) (folderRows db) = []
          \<and> filter (\<lambda>r. fileFolderPath r = Some (rowPath f) \<and> fileHash r \<noteq> h) (fileRows db) = [])"

fun eligibleTrace :: "Database \<Rightarrow> jsstring \<Rightarrow> nat list \<Rightarrow> bool" where
  "eligibleTrace db h [] = True"
| "eligibleTrace db h (i # rest) = (eligible db h i \<and> eligibleTrace (removeFolder db i) h rest)"

text \<open>
  Three nested folders; the file being deleted is the only one in the innermost, and
  the outermost holds another file.
\<close>

definition treeFolders :: "FolderRow list" where
  "treeFolders = [\<lparr> rowId = 1, rowPath = js ''/1'', rowParent = None \<rparr>,
                  \<lparr> rowId = 2, rowPath = js ''/1/2'', rowParent = Some 1 \<rparr>,
                  \<lparr> rowId = 3, rowPath = js ''/1/2/3'', rowParent = Some 2 \<rparr>]"

definition treeFiles :: "FileRow list" where
  "treeFiles = [\<lparr> fileHash = js ''abc123'', fileFolder = Some 3, fileFolderPath = Some (js ''/1/2/3'') \<rparr>,
                \<lparr> fileHash = js ''other9'', fileFolder = Some 1, fileFolderPath = Some (js ''/1'') \<rparr>]"

definition treeDb :: Database where
  "treeDb = \<lparr> folderRows = treeFolders, fileRows = treeFiles, throws = (\<lambda>q. False) \<rparr>"

definition leafFile :: File where
  "leafFile = exampleFile\<lparr>folder := Some 3, folderPath := Some (js ''/1/2/3'')\<rparr>"

section \<open>Delete\<close>

subsection \<open>\<open>utils/strings.ts\<close>, \<open>utils/mime.ts\<close>, \<open>utils/url.ts\<close>\<close>

definition getStringOrUndefined :: "jsstring option \<Rightarrow> jsstring option" where
  "getStringOrUndefined v =
     (case v of None \<Rightarrow> None | Some s \<Rightarrow> if trim s \<noteq> [] then Some s else None)"

definition normalizeExt :: "jsstring option \<Rightarrow> jsstring option" where
  "normalizeExt e =
     (case getStringOrUndefined e of
        None \<Rightarrow> None
      | Some raw \<Rightarrow> Some (if startsWith raw [dot] then raw else dot # raw))"

definition extFromMime :: "jsstring option \<Rightarrow> jsstring option" where
  "extFromMime mimeType =
     (case getStringOrUndefined mimeType of
        None \<Rightarrow> None
      | Some raw \<Rightarrow>
          let m = map toLowerAscii raw
          in if m = js ''image/jpeg'' \<or> m = js ''image/jpg'' then Some (js ''.jpg'')
             else if m = js ''image/png'' then Some (js ''.png'')
             else if m = js ''image/webp'' then Some (js ''.webp'')
             else if m = js ''image/gif'' then Some (js ''.gif'')
             else if m = js ''image/svg+xml'' then Some (js ''.svg'')
             else if m = js ''application/pdf'' then Some (js ''.pdf'')
             else None)"

text \<open>
  \<open>s.indexOf(t)\<close> (\<open>None\<close> for \<open>-1\<close>), \<open>s.split('?')[0]\<close>, and the test
  \<open>/^\w+:\/\//\<close>.
\<close>

fun indexOf :: "jsstring \<Rightarrow> jsstring \<Rightarrow> nat option" where
  "indexOf [] t = (if t = [] then Some 0 else None)"
| "indexOf (c # cs) t =
     (if startsWith (c # cs) t then Some 0 else map_option Suc (indexOf cs t))"

definition beforeQuery :: "jsstring \<Rightarrow> jsstring" where
  "beforeQuery s = takeWhile (\<lambda>c. c \<noteq> 63) s"

definition isWordChar :: "nat \<Rightarrow> bool" where
  "isWordChar c = (isAlnum c \<or> c = 95)"

definition hasScheme :: "jsstring \<Rightarrow> bool" where
  "hasScheme s =
     (let w = takeWhile isWordChar s
      in w \<noteq> [] \<and> startsWith (drop (length w) s) (js ''://''))"

text \<open>
  What the JavaScript runtime supplies to \<open>delete\<close>: canonical decomposition,
  \<open>new URL(raw).pathname\<close> and \<open>decodeURIComponent\<close> (\<open>None\<close> when they throw), and
  the canonicalisation of a code unit under the regular-expression flag \<open>i\<close>.
\<close>

record Runtime =
  normalizeNFD :: normalizer
  urlPathname :: "jsstring \<Rightarrow> jsstring option"
  decodeURIComponent :: "jsstring \<Rightarrow> jsstring option"
  canonicalize :: "nat \<Rightarrow> nat"

definition decodeOrKeep :: "Runtime \<Rightarrow> jsstring \<Rightarrow> jsstring" where
  "decodeOrKeep rt s = (case decodeURIComponent rt s of Some d \<Rightarrow> d | None \<Rightarrow> s)"

definition extractObjectPathFromUrl ::
  "Runtime \<Rightarrow> jsstring option \<Rightarrow> jsstring \<Rightarrow> jsstring option \<Rightarrow> jsstring option" where
  "extractObjectPathFromUrl rt u marker base =
     (case getStringOrUndefined u of
        None \<Rightarrow> None
      | Some raw \<Rightarrow>
          let pathname = (if hasScheme raw
                          then (case urlPathname rt raw of Some p \<Rightarrow> p | None \<Rightarrow> beforeQuery raw)
                          else beforeQuery raw)
          in case indexOf pathname marker of
               Some idx \<Rightarrow>
                 let objectPath = dropWhile (\<lambda>c. c = slash) (drop (idx + length marker) pathname)
                 in if objectPath = [] then None else Some (decodeOrKeep rt objectPath)
             | None \<Rightarrow>
                 (case getStringOrUndefined base of
                    None \<Rightarrow> None
                  | Some b \<Rightarrow>
                      if startsWith raw b
                      then let remainder = beforeQuery (dropWhile (\<lambda>c. c = slash) (drop (length b) raw))
                           in if remainder = [] then None else Some (decodeOrKeep rt remainder)
                      else None))"

subsection \<open>Removing files and directories\<close>

text \<open>
  \<open>fs.promises.unlink\<close> removes a regular file and fails on a directory;
  \<open>readdir\<close> lists the names directly under a directory; \<open>rmdir\<close> removes an
  empty directory.
\<close>

definition unlink :: "filesystem \<Rightarrow> jsstring \<Rightarrow> error + filesystem" where
  "unlink fs p =
     (case map_of fs p of
        None \<Rightarrow> Inl ENOENT
      | Some Directory \<Rightarrow> Inl EISDIR
      | Some (RegularFile content) \<Rightarrow> Inr (removeEntry fs p))"

definition entriesOf :: "filesystem \<Rightarrow> jsstring \<Rightarrow> jsstring list" where
  "entriesOf fs d =
     map (\<lambda>e. path_basename (fst e)) (filter (\<lambda>e. fst e \<noteq> d \<and> path_dirname (fst e) = d) fs)"

definition readdir :: "filesystem \<Rightarrow> jsstring \<Rightarrow> error + jsstring list" where
  "readdir fs d =
     (if \<not> existsSync fs d then Inl ENOENT
      else if \<not> isDirectory fs d then Inl ENOTDIR
      else Inr (entriesOf fs d))"

definition rmdir :: "filesystem \<Rightarrow> jsstring \<Rightarrow> error + filesystem" where
  "rmdir fs d =
     (case map_of fs d of
        None \<Rightarrow> Inl ENOENT
      | Some (RegularFile content) \<Rightarrow> Inl ENOTDIR
      | Some Directory \<Rightarrow> if entriesOf fs d \<noteq> [] then Inl ENOTEMPTY else Inr (removeEntry fs d))"

text \<open>
  \<open>cleanupEmptyDirs\<close> of \<open>utils/path.ts\<close>: every round that goes on has removed a
  directory, so the loop ends.
\<close>

function cleanupLoop :: "filesystem \<Rightarrow> jsstring \<Rightarrow> jsstring \<Rightarrow> filesystem" where
  "cleanupLoop fs rootAbs current =
     (if startsWith current (rootAbs @ [slash]) \<and> current \<noteq> rootAbs
      then (case readdir fs current of
              Inl e \<Rightarrow> fs
            | Inr entries \<Rightarrow>
                if entries \<noteq> [] then fs
                else (case rmdir fs current of
                        Inl e \<Rightarrow> fs
                      | Inr fs' \<Rightarrow> cleanupLoop fs' rootAbs (path_dirname current)))
      else fs)"
  by pat_completeness auto
termination
proof (relation "measure (\<lambda>(fs, r, c). length fs)")
  show "wf (measure (\<lambda>(fs, r, c). length fs))" by simp
next
  fix fs :: filesystem and rootAbs current :: jsstring and x entries fs'
  assume r: "rmdir fs current = Inr fs'"
  have shorter: "length (filter (\<lambda>e. fst e \<noteq> k) xs) < length xs"
    if "map_of xs k = Some v" for xs :: filesystem and k v
    using that
  proof (induction xs)
    case Nil then show ?case by simp
  next
    case (Cons a xs)
    show ?case
    proof (cases "fst a = k")
      case True
      have "length (filter (\<lambda>e. fst e \<noteq> k) xs) \<le> length xs" by simp
      then have "length (filter (\<lambda>e. fst e \<noteq> k) xs) < Suc (length xs)" by (rule le_imp_less_Suc)
      with True show ?thesis by simp
    next
      case False
      with Cons show ?thesis by (cases a) (simp split: if_splits)
    qed
  qed
  from r obtain v where "map_of fs current = Some v" "fs' = removeEntry fs current"
    by (auto simp: rmdir_def split: option.splits node.splits if_splits)
  then show "((fs', rootAbs, path_dirname current), fs, rootAbs, current) \<in> measure (\<lambda>(fs, r, c). length fs)"
    using shorter [of fs current v] by (simp add: removeEntry_def)
qed

declare cleanupLoop.simps [simp del]

definition cleanupEmptyDirs :: "jsstring \<Rightarrow> filesystem \<Rightarrow> jsstring \<Rightarrow> jsstring \<Rightarrow> filesystem" where
  "cleanupEmptyDirs cwd fs absFilePath root =
     cleanupLoop fs (path_resolve cwd [root]) (path_dirname absFilePath)"

subsection \<open>\<open>path.relative\<close> and the file-name pattern\<close>

text \<open>
  \<open>path.relative(from, to)\<close>: both resolved, one \<open>..\<close> for every segment of
  \<open>from\<close> past the common ones, then the rest of \<open>to\<close>.
\<close>

fun commonPrefixLength :: "jsstring list \<Rightarrow> jsstring list \<Rightarrow> nat" where
  "commonPrefixLength (a # as) (b # bs) = (if a = b then Suc (commonPrefixLength as bs) else 0)"
| "commonPrefixLength as bs = 0"

definition path_relative :: "jsstring \<Rightarrow> jsstring \<Rightarrow> jsstring \<Rightarrow> jsstring" where
  "path_relative cwd from to =
     (let f = path_resolve cwd [from];
          t = path_resolve cwd [to]
      in if f = t then []
         else let fsegs = segmentsOf f;
                  tsegs = segmentsOf t;
                  c = commonPrefixLength fsegs tsegs
              in join_with slash (replicate (length fsegs - c) [dot, dot] @ drop c tsegs))"

text \<open>
  The pattern built with \<open>escapeRegexLiteral\<close> matches literal text only:
  \<open>^hash(ext1|ext2|...)$\<close> accepts a name equal to the hash followed by one of the
  extensions, and \<open>^hash\.[a-z0-9]{1,6}$\<close> a name that is the hash, a dot and one to
  six letters or digits, both up to the canonicalisation that the flag \<open>i\<close> applies
  to every code unit.
\<close>

definition equalIgnoringCase :: "Runtime \<Rightarrow> jsstring \<Rightarrow> jsstring \<Rightarrow> bool" where
  "equalIgnoringCase rt a b = (map (canonicalize rt) a = map (canonicalize rt) b)"

definition matchesClassIgnoringCase :: "Runtime \<Rightarrow> nat \<Rightarrow> bool" where
  "matchesClassIgnoringCase rt c =
     list_ex (\<lambda>x. canonicalize rt x = canonicalize rt c) ([97..<123] @ [48..<58])"

definition filenameRegexTest :: "Runtime \<Rightarrow> jsstring \<Rightarrow> jsstring list \<Rightarrow> jsstring \<Rightarrow> bool" where
  "filenameRegexTest rt h knownExts nm =
     (if knownExts \<noteq> [] then list_ex (\<lambda>e. equalIgnoringCase rt nm (h @ e)) knownExts
      else let rest = drop (length h) nm
           in equalIgnoringCase rt (take (length h) nm) h
              \<and> rest \<noteq> [] \<and> canonicalize rt (hd rest) = canonicalize rt dot
              \<and> 1 \<le> length (tl rest) \<and> length (tl rest) \<le> 6
              \<and> list_all (matchesClassIgnoringCase rt) (tl rest))"

subsection \<open>provider.delete\<close>

text \<open>
  A JavaScript \<open>Set\<close> of strings keeps insertion order and ignores a value it
  already holds; it is the list of its values in that order.
\<close>

definition setAdd :: "jsstring list \<Rightarrow> jsstring \<Rightarrow> jsstring list" where
  "setAdd xs x = (if x \<in> set xs then xs else xs @ [x])"

definition addIfTruthy :: "jsstring list \<Rightarrow> jsstring option \<Rightarrow> jsstring list" where
  "addIfTruthy xs v = (case v of None \<Rightarrow> xs | Some s \<Rightarrow> if s \<noteq> [] then setAdd xs s else xs)"

definition extOfObject :: "jsstring option \<Rightarrow> jsstring option" where
  "extOfObject obj = (case obj of None \<Rightarrow> None | Some p \<Rightarrow> if p \<noteq> [] then Some (path_extname p) else None)"

definition extCandidatesOf :: "Runtime \<Rightarrow> Env \<Rightarrow> File \<Rightarrow> jsstring list" where
  "extCandidatesOf rt env file =
     (let objectFromUrl = extractObjectPathFromUrl rt (url file) (uploadsUrlMarker env) (baseUrl env);
          objectFromPreviewUrl = extractObjectPathFromUrl rt (previewUrl file) (uploadsUrlMarker env) (baseUrl env);
          c = addIfTruthy [] (normalizeExt (ext file));
          c = addIfTruthy c (extOfObject objectFromUrl);
          c = addIfTruthy c (extOfObject objectFromPreviewUrl);
          c = addIfTruthy c (case name file of None \<Rightarrow> None | Some n \<Rightarrow> if n \<noteq> [] then Some (path_extname n) else None);
          c = addIfTruthy c (extFromMime (mime file))
      in if c = [] then [[]] else c)"

definition addPathsForExt ::
  "Env \<Rightarrow> jsstring \<Rightarrow> jsstring \<Rightarrow> jsstring \<Rightarrow> jsstring list \<Rightarrow> jsstring \<Rightarrow> jsstring list" where
  "addPathsForExt env h dynamicPathSanitized dynamicPathRaw objectPaths e =
     (let filename = h @ e;
          objectPaths = setAdd objectPaths (join [prefix env, dynamicPathSanitized, filename]);
          objectPaths = (if dynamicPathRaw \<noteq> []
                         then setAdd objectPaths (join [prefix env, dynamicPathRaw, filename])
                         else objectPaths);
          objectPaths = setAdd objectPaths (join [prefix env, filename])
      in setAdd objectPaths filename)"

definition objectPathsOf :: "Runtime \<Rightarrow> Env \<Rightarrow> File \<Rightarrow> jsstring list" where
  "objectPathsOf rt env file =
     (let objectFromUrl = extractObjectPathFromUrl rt (url file) (uploadsUrlMarker env) (baseUrl env);
          objectFromPreviewUrl = extractObjectPathFromUrl rt (previewUrl file) (uploadsUrlMarker env) (baseUrl env);
          rawPath = orEmpty (path file);
          dynamicPathSanitized = (if rawPath \<noteq> [] then sanitizePathDir (normalizeNFD rt) rawPath else []);
          dynamicPathRaw = normalizeRelativeSlashPath rawPath;
          objectPaths = foldl (addPathsForExt env (hash file) dynamicPathSanitized dynamicPathRaw) []
                          (extCandidatesOf rt env file);
          objectPaths = addIfTruthy objectPaths objectFromUrl
      in addIfTruthy objectPaths objectFromPreviewUrl)"

text \<open>
  The direct phase: the first candidate that resolves under the root to a path that
  exists.
\<close>

fun firstExisting :: "Env \<Rightarrow> filesystem \<Rightarrow> jsstring list \<Rightarrow> jsstring option" where
  "firstExisting env fs [] = None"
| "firstExisting env fs (objectPath # rest) =
     (let rel = normalizeRelativeSlashPath objectPath
      in if rel = [] then firstExisting env fs rest
         else (case safeResolveUnderRoot (processCwd env) (uploadPath env) rel of
                 None \<Rightarrow> firstExisting env fs rest
               | Some absPath \<Rightarrow> if \<not> existsSync fs absPath then firstExisting env fs rest else Some absPath))"

text \<open>The directory scan: the directories to list, then the first listed name that fits.\<close>

definition lastIndexOfSlash :: "jsstring \<Rightarrow> nat" where
  "lastIndexOfSlash s = length s - 1 - length (takeWhile (\<lambda>c. c \<noteq> slash) (rev s))"

fun dirCandidatesOf :: "Env \<Rightarrow> jsstring list \<Rightarrow> jsstring list \<Rightarrow> jsstring list" where
  "dirCandidatesOf env dirs [] = setAdd dirs (path_resolve (processCwd env) [uploadPath env])"
| "dirCandidatesOf env dirs (objectPath # rest) =
     (let rel = normalizeRelativeSlashPath objectPath
      in if rel = [] then dirCandidatesOf env dirs rest
         else let relDir = (if slash \<in> set rel then take (lastIndexOfSlash rel) rel else []);
                  absDir = safeResolveUnderRoot (processCwd env) (uploadPath env)
                             (if relDir \<noteq> [] then relDir else [dot])
              in dirCandidatesOf env (addIfTruthy dirs absDir) rest)"

fun scanEntries :: "Runtime \<Rightarrow> Env \<Rightarrow> filesystem \<Rightarrow> jsstring \<Rightarrow> jsstring list \<Rightarrow> jsstring
     \<Rightarrow> jsstring list \<Rightarrow> jsstring option" where
  "scanEntries rt env fs h knownExts dir [] = None"
| "scanEntries rt env fs h knownExts dir (nm # rest) =
     (if \<not> filenameRegexTest rt h knownExts nm then scanEntries rt env fs h knownExts dir rest
      else (case safeResolveUnderRoot (processCwd env) (uploadPath env)
                   (path_relative (processCwd env) (uploadPath env) (path_join [dir, nm])) of
              None \<Rightarrow> scanEntries rt env fs h knownExts dir rest
            | Some absPath \<Rightarrow>
                if \<not> existsSync fs absPath then scanEntries rt env fs h knownExts dir rest else Some absPath))"

fun scanDirs :: "Runtime \<Rightarrow> Env \<Rightarrow> filesystem \<Rightarrow> jsstring \<Rightarrow> jsstring list \<Rightarrow> jsstring list
     \<Rightarrow> jsstring option" where
  "scanDirs rt env fs h knownExts [] = None"
| "scanDirs rt env fs h knownExts (dir # rest) =
     (case readdir fs dir of
        Inl e \<Rightarrow> scanDirs rt env fs h knownExts rest
      | Inr entries \<Rightarrow>
          (case scanEntries rt env fs h knownExts dir entries of
             Some absPath \<Rightarrow> Some absPath
           | None \<Rightarrow> scanDirs rt env fs h knownExts rest))"

text \<open>
  \<open>delete\<close> returns nothing after a removal and the string \<open>File doesn't exist\<close>
  when it found nothing; an exception of \<open>unlink\<close> is logged and thrown again.
\<close>

datatype deleteResult = Removed | FileDoesNotExist

definition removeAndCleanup ::
  "Env \<Rightarrow> filesystem \<Rightarrow> Database \<Rightarrow> File \<Rightarrow> jsstring \<Rightarrow> error + deleteResult \<times> filesystem \<times> Database" where
  "removeAndCleanup env fs db file absPath =
     (case unlink fs absPath of
        Inl e \<Rightarrow> Inl e
      | Inr fs1 \<Rightarrow>
          let fs2 = (if cleanupDirs env then cleanupEmptyDirs (processCwd env) fs1 absPath (uploadPath env) else fs1);
              db1 = fst (maybeCleanupEmptyAdminFolders env db file)
          in Inr (Removed, fs2, db1))"

definition delete ::
  "Runtime \<Rightarrow> Env \<Rightarrow> filesystem \<Rightarrow> Database \<Rightarrow> File \<Rightarrow> error + deleteResult \<times> filesystem \<times> Database" where
  "delete rt env fs db file =
     (let objectPaths = objectPathsOf rt env file
      in case firstExisting env fs objectPaths of
           Some absPath \<Rightarrow> removeAndCleanup env fs db file absPath
         | None \<Rightarrow>
             let dirCandidates = dirCandidatesOf env [] objectPaths;
                 knownExts = filter (\<lambda>e. e \<noteq> []) (extCandidatesOf rt env file)
             in case scanDirs rt env fs (hash file) knownExts dirCandidates of
                  Some absPath \<Rightarrow> removeAndCleanup env fs db file absPath
                | None \<Rightarrow> Inr (FileDoesNotExist, fs, db))"

text \<open>
  What it is for the two phases to find nothing, said of the file system: no candidate
  resolves to a path that exists, and no directory that can be listed holds a name
  that fits the pattern and resolves to a path that exists.
\<close>

definition candidateMisses :: "Env \<Rightarrow> filesystem \<Rightarrow> jsstring \<Rightarrow> bool" where
  "candidateMisses env fs objectPath =
     (let rel = normalizeRelativeSlashPath objectPath
      in rel = []
         \<or> (case safeResolveUnderRoot (processCwd env) (uploadPath env) rel of
               None \<Rightarrow> True
             | Some absPath \<Rightarrow> \<not> existsSync fs absPath))"





text \<open>
  A store whose uploads root holds a directory named \<open>custom\<close> and nothing else, a
  descriptor with that hash and no extension, and a descriptor whose file is not in
  the store.
\<close>

definition customStore :: filesystem where
  "customStore = emptyStore @ [(js ''/srv/app/public/uploads/custom'', Directory)]"

definition customFile :: File where
  "customFile = exampleFile\<lparr>hash := js ''custom'', ext := None, url := None\<rparr>"

definition toUpperAscii :: "nat \<Rightarrow> nat" where
  "toUpperAscii c = (if 97 \<le> c \<and> c \<le> 122 then c - 32 else c)"

definition exampleRuntime :: Runtime where
  "exampleRuntime = \<lparr> normalizeNFD = latin1Nfd, urlPathname = (\<lambda>u. None),
     decodeURIComponent = (\<lambda>s. Some s), canonicalize = toUpperAscii \<rparr>"


section \<open>Properties\<close>

subsection \<open>Strings\<close>

lemma startsWith_append: "startsWith (p @ r) p"
  by (induction p) auto

lemma startsWith_iff: "startsWith s p \<longleftrightarrow> (\<exists>r. s = p @ r)"
proof (induction s p rule: startsWith.induct)
  case (1 s) show ?case by simp
next
  case (2 p ps) show ?case by simp
next
  case (3 c cs p ps) then show ?case by auto
qed

lemma includes_iff: "includesStr s t \<longleftrightarrow> (\<exists>a b. s = a @ t @ b)"
proof (induction s)
  case Nil
  show ?case by auto
next
  case (Cons c cs)
  show ?case
  proof
    assume "includesStr (c # cs) t"
    then consider "startsWith (c # cs) t" | "includesStr cs t" by auto
    then show "\<exists>a b. c # cs = a @ t @ b"
    proof cases
      case 1
      then obtain r where "c # cs = t @ r" by (auto simp: startsWith_iff)
      then have "c # cs = [] @ t @ r" by simp
      then show ?thesis by blast
    next
      case 2
      with Cons obtain a b where "cs = a @ t @ b" by auto
      then have "c # cs = (c # a) @ t @ b" by simp
      then show ?thesis by blast
    qed
  next
    assume "\<exists>a b. c # cs = a @ t @ b"
    then obtain a b where ab: "c # cs = a @ t @ b" by blast
    show "includesStr (c # cs) t"
    proof (cases a)
      case Nil
      with ab have "startsWith (c # cs) t" by (auto simp: startsWith_iff)
      then show ?thesis by simp
    next
      case (Cons x xs)
      with ab have "cs = xs @ t @ b" by simp
      with Cons.IH have "includesStr cs t" by blast
      then show ?thesis by simp
    qed
  qed
qed

subsection \<open>base64url and digests\<close>

lemma div_cat: "q < k \<Longrightarrow> (m * k + q) div k = (m::nat)"
  by simp

lemma mod_cat: "q < k \<Longrightarrow> (m * k + q) mod k = (q::nat)"
  by simp

lemma byte_div16: "(y::nat) < 256 \<Longrightarrow> y div 16 < 16"
  by (simp add: less_mult_imp_div_less)

lemma byte_div64: "(y::nat) < 256 \<Longrightarrow> y div 64 < 4"
  by (simp add: less_mult_imp_div_less)

lemma byte_div4: "(y::nat) < 256 \<Longrightarrow> y div 4 < 64"
  by (simp add: less_mult_imp_div_less)

lemma sextet2_bound: "(y::nat) < 256 \<Longrightarrow> x mod 4 * 16 + y div 16 < 64"
proof -
  assume "y < 256"
  have "x mod 4 < 4" by simp
  then have "x mod 4 * 16 \<le> 48" by linarith
  moreover have "y div 16 < 16" using \<open>y < 256\<close> by (rule byte_div16)
  ultimately show ?thesis by linarith
qed

lemma sextet3_bound: "(z::nat) < 256 \<Longrightarrow> y mod 16 * 4 + z div 64 < 64"
proof -
  assume "z < 256"
  have "y mod 16 < 16" by simp
  then have "y mod 16 * 4 \<le> 60" by linarith
  moreover have "z div 64 < 4" using \<open>z < 256\<close> by (rule byte_div64)
  ultimately show ?thesis by linarith
qed

lemma sextet3_last_bound: "(y::nat) mod 16 * 4 < 64"
proof -
  have "y mod 16 < 16" by simp
  then show ?thesis by linarith
qed

lemma sextet2_last_bound: "(y::nat) mod 4 * 16 < 64"
proof -
  have "y mod 4 < 4" by simp
  then show ?thesis by linarith
qed

lemma unat_byte: "unat (a :: byte) < 256"
  using unsigned_less [of a] by simp

lemma unbase64_b64urlChar: "n < 64 \<Longrightarrow> unbase64 (b64urlChar n) = Some n"
  by (auto simp: unbase64_def b64urlChar_def)

lemma b64urlChar_not_pad: "n < 64 \<Longrightarrow> b64urlChar n \<noteq> 61"
  by (auto simp: b64urlChar_def)

lemma sextetsOf_bound: "list_all (\<lambda>n. n < 64) (sextetsOf bs)"
  by (induction bs rule: sextetsOf.induct)
     (simp_all add: Let_def unat_byte byte_div4 sextet2_bound sextet3_bound
        sextet3_last_bound sextet2_last_bound)

lemma takeWhile_b64:
  "list_all (\<lambda>n. n < 64) ns \<Longrightarrow>
     takeWhile (\<lambda>c. c \<noteq> 61) (map b64urlChar ns) = map b64urlChar ns"
  by (induction ns) (simp_all add: b64urlChar_not_pad)

lemma map_filter_b64:
  "list_all (\<lambda>n. n < 64) ns \<Longrightarrow> List.map_filter unbase64 (map b64urlChar ns) = ns"
  by (induction ns) (simp_all add: List.map_filter_simps unbase64_b64urlChar)

lemma decodeSextets_sextetsOf: "decodeSextets (sextetsOf bs) = bs"
  by (induction bs rule: sextetsOf.induct)
     (simp_all add: Let_def div_cat mod_cat unat_byte byte_div16 byte_div64)

lemma base64url_roundtrip: "base64urlDecode (base64urlEncode bs) = bs"
  by (simp add: base64urlDecode_def base64urlEncode_def takeWhile_b64 map_filter_b64
      sextetsOf_bound decodeSextets_sextetsOf)

lemma length_digestBytes: "length (digestBytes w) = 32"
  by (simp add: digestBytes_def del: upt_rec_numeral)

lemma nth_digestBytes:
  "i < 32 \<Longrightarrow> digestBytes w ! i = ucast (drop_bit (8 * (31 - i)) w)"
  unfolding digestBytes_def by (simp del: upt_rec_numeral)

lemma digestBytes_inj:
  assumes "digestBytes w = digestBytes w'"
  shows "w = w'"
proof (rule bit_word_eqI)
  fix n :: nat
  assume n: "n < LENGTH(256)"
  define i where "i = 31 - n div 8"
  have i: "i < 32" "8 * (31 - i) + n mod 8 = n" using n by (auto simp: i_def)
  have "digestBytes w ! i = digestBytes w' ! i" by (simp only: assms)
  then have "(ucast (drop_bit (8 * (31 - i)) w) :: 8 word) = ucast (drop_bit (8 * (31 - i)) w')"
    using i(1) by (simp only: nth_digestBytes)
  then have "bit (ucast (drop_bit (8 * (31 - i)) w) :: 8 word) (n mod 8)
           = bit (ucast (drop_bit (8 * (31 - i)) w') :: 8 word) (n mod 8)" by simp
  then show "bit w n = bit w' n"
    using i(2) by (simp add: bit_ucast_iff bit_drop_bit_eq)
qed

lemma decode_sign:
  "base64urlDecode (signPrivateUrl hmac secret p e)
     = digestBytes (hmac secret (p @ [10] @ numberToString e))"
  by (simp add: signPrivateUrl_def Let_def base64url_roundtrip)

lemma sign_nonempty: "signPrivateUrl hmac secret p e \<noteq> []"
proof
  assume a: "signPrivateUrl hmac secret p e = []"
  have "base64urlDecode [] = []"
    by (simp add: base64urlDecode_def List.map_filter_simps)
  with a have "digestBytes (hmac secret (p @ [10] @ numberToString e)) = []"
    using decode_sign [of hmac secret p e] by simp
  then have "length (digestBytes (hmac secret (p @ [10] @ numberToString e))) = 0"
    by simp
  then show False by (simp add: length_digestBytes)
qed

subsection \<open>Numbers\<close>

lemma digitsOf_nonempty: "digitsOf n \<noteq> []"
  by (subst digitsOf.simps) simp

lemma isDigit_digit: "d < 10 \<Longrightarrow> isDigit (48 + d)"
  by (simp add: isDigit_def)

lemma digitsOf_digits: "list_all isDigit (digitsOf n)"
proof (induction n rule: digitsOf.induct)
  case (1 n)
  show ?case
  proof (cases "n < 10")
    case True
    then show ?thesis by (subst digitsOf.simps) (simp add: isDigit_digit)
  next
    case False
    with 1 have "list_all isDigit (digitsOf (n div 10))" by simp
    with False show ?thesis
      by (subst digitsOf.simps) (simp add: isDigit_digit)
  qed
qed

lemma digitsValue_snoc: "digitsValue (ds @ [c]) = digitsValue ds * 10 + (c - 48)"
  by (simp add: digitsValue_def)

lemma digitsValue_digitsOf: "digitsValue (digitsOf n) = n"
proof (induction n rule: digitsOf.induct)
  case (1 n)
  show ?case
  proof (cases "n < 10")
    case True
    then show ?thesis by (subst digitsOf.simps) (simp add: digitsValue_def)
  next
    case False
    with 1 have "digitsValue (digitsOf (n div 10)) = n div 10" by simp
    with False show ?thesis
      by (subst digitsOf.simps) (simp add: digitsValue_snoc)
  qed
qed

lemma takeWhile_all: "list_all P xs \<Longrightarrow> takeWhile P xs = xs"
  by (induction xs) simp_all

lemma isDigit_not_space: "isDigit c \<Longrightarrow> \<not> isSpace c"
  by (auto simp: isDigit_def isSpace_def)

lemma digitsOf_hd: "isDigit (hd (digitsOf n))"
  using digitsOf_digits [of n] digitsOf_nonempty [of n]
  by (cases "digitsOf n") simp_all

lemma parseInt10_digitsOf: "parseInt10 (digitsOf n) = Some (int n)"
proof -
  obtain c cs where cs: "digitsOf n = c # cs"
    using digitsOf_nonempty [of n] by (cases "digitsOf n") auto
  have c: "isDigit c" using digitsOf_hd [of n] cs by simp
  then have ns: "\<not> isSpace c" by (rule isDigit_not_space)
  have sign: "c \<noteq> 45" "c \<noteq> 43" using c by (auto simp: isDigit_def)
  have tw: "takeWhile isDigit (c # cs) = c # cs"
    using digitsOf_digits [of n] cs takeWhile_all [of isDigit "c # cs"] by simp
  have "digitsValue (c # cs) = n" using digitsValue_digitsOf [of n] cs by simp
  then show ?thesis
    unfolding parseInt10_def cs using ns sign tw by (simp add: Let_def)
qed

lemma parseInt10_numberToString: "parseInt10 (numberToString e) = Some e"
proof (cases "e < 0")
  case False
  then show ?thesis by (simp add: numberToString_def parseInt10_digitsOf)
next
  case True
  obtain c cs where cs: "digitsOf (nat (- e)) = c # cs"
    using digitsOf_nonempty [of "nat (- e)"] by (cases "digitsOf (nat (- e))") auto
  have tw: "takeWhile isDigit (c # cs) = c # cs"
    using digitsOf_digits [of "nat (- e)"] cs takeWhile_all [of isDigit "c # cs"] by simp
  have v: "digitsValue (c # cs) = nat (- e)"
    using digitsValue_digitsOf [of "nat (- e)"] cs by simp
  have ns: "\<not> isSpace dash" by (simp add: isSpace_def dash_def)
  show ?thesis
    unfolding parseInt10_def numberToString_def cs
    using True ns tw v by (simp add: Let_def dash_def)
qed

subsection \<open>isPrivate\<close>

text \<open>
  C10. With private mode enabled and a non-empty private folder name,
  \<open>isPrivate\<close> called with no file returns true, and called with a file it
  returns true exactly when the file's url (the empty string when absent)
  contains the substring \<open>/uploads/<privateFolder>/\<close>; with private mode
  disabled, or with an empty folder name, it returns false for every argument.
\<close>

theorem isPrivate_spec:
  "(privateEnable env \<and> privateFolderNorm env \<noteq> [] \<longrightarrow>
      isPrivate env None
      \<and> (isPrivate env (Some f) \<longleftrightarrow>
           (\<exists>a b. (case url f of None \<Rightarrow> [] | Some v \<Rightarrow> v)
                     = a @ js ''/uploads/'' @ privateFolderNorm env @ js ''/'' @ b)))
   \<and> (\<not> privateEnable env \<or> privateFolderNorm env = [] \<longrightarrow> \<not> isPrivate env fo)"
proof -
  have lit: "slash # UPLOADS_FOLDER_NAME @ slash # pf @ [slash] = js ''/uploads/'' @ pf @ js ''/''" for pf
    by (simp add: js_def slash_def UPLOADS_FOLDER_NAME_def)
  show ?thesis
    unfolding isPrivate_def Let_def lit includes_iff
    by (auto split: option.splits)
qed

theorem isPrivate_spec_witness:
  "isPrivate exampleEnv None
   \<and> isPrivate exampleEnv (Some exampleFile)
   \<and> \<not> isPrivate exampleEnv (Some (exampleFile\<lparr>url := Some (js ''/uploads/public/abc123.png'')\<rparr>))
   \<and> \<not> isPrivate (exampleEnv\<lparr>privateEnable := False\<rparr>) (Some exampleFile)
   \<and> \<not> isPrivate (exampleEnv\<lparr>privateFolderNorm := []\<rparr>) None"
proof -
  have a: "isPrivate exampleEnv None"
    using isPrivate_spec [where env = exampleEnv] by (simp add: exampleEnv_def js_def)
  have b: "isPrivate exampleEnv (Some exampleFile)"
    by (simp add: isPrivate_def exampleFile_def exampleEnv_def js_def slash_def UPLOADS_FOLDER_NAME_def)
  have c: "\<not> isPrivate exampleEnv (Some (exampleFile\<lparr>url := Some (js ''/uploads/public/abc123.png'')\<rparr>))"
    by (simp add: isPrivate_def exampleFile_def exampleEnv_def js_def slash_def UPLOADS_FOLDER_NAME_def)
  have d: "\<not> isPrivate (exampleEnv\<lparr>privateEnable := False\<rparr>) (Some exampleFile)"
    using isPrivate_spec [where env = "exampleEnv\<lparr>privateEnable := False\<rparr>" and fo = "Some exampleFile"]
    by simp
  have e: "\<not> isPrivate (exampleEnv\<lparr>privateFolderNorm := []\<rparr>) None"
    using isPrivate_spec [where env = "exampleEnv\<lparr>privateFolderNorm := []\<rparr>" and fo = None]
    by simp
  show ?thesis using a b c d e by simp
qed

subsection \<open>Signed URLs\<close>

lemma verify_empty: "verifyPrivateUrlToken hmac [] p e t = Inr False"
  "verifyPrivateUrlToken hmac secret p e [] = Inr False"
  by (simp_all add: verifyPrivateUrlToken_def)

lemma verify_eq:
  "secret \<noteq> [] \<Longrightarrow> t \<noteq> [] \<Longrightarrow>
     verifyPrivateUrlToken hmac secret p e t
       = timingSafeEqual (digestBytes (hmac secret (p @ [10] @ numberToString e))) (base64urlDecode t)"
  by (simp add: verifyPrivateUrlToken_def Let_def decode_sign)

lemma payload_inj:
  assumes "p @ [10] @ numberToString e = p' @ [10] @ numberToString e"
  shows "p = p'"
  using assms by simp

text \<open>
  C2. \<open>verifyPrivateUrlToken\<close> is claimed to return a boolean for every token and
  never to throw, also for a token that decodes to a byte length other than the 32
  bytes of the HMAC. On the code, with a non-empty secret, the token \<open>abc\<close> decodes
  to two bytes and \<open>crypto.timingSafeEqual\<close> throws its length error, for every
  path and expiry.
\<close>

theorem verifyPrivateUrlToken_short_token_throws:
  "secret \<noteq> [] \<Longrightarrow>
     verifyPrivateUrlToken hmac secret p e (js ''abc'') = Inl ERR_CRYPTO_TIMING_SAFE_EQUAL_LENGTH"
proof -
  assume s: "secret \<noteq> []"
  have d: "length (base64urlDecode (js ''abc'')) = 2"
    by (simp add: base64urlDecode_def js_def List.map_filter_def unbase64_def)
  have t: "js ''abc'' \<noteq> []" by (simp add: js_def)
  show ?thesis
    unfolding verify_eq [OF s t] timingSafeEqual_def
    by (simp only: d length_digestBytes) simp
qed

theorem verifyPrivateUrlToken_short_token_throws_witness:
  "verifyPrivateUrlToken lengthMac (js ''s3cret'') (js ''/uploads/private/7/abc123.png'')
     1730000000 (js ''abc'') = Inl ERR_CRYPTO_TIMING_SAFE_EQUAL_LENGTH"
proof -
  have s: "js ''s3cret'' \<noteq> []" by (simp add: js_def)
  show ?thesis by (rule verifyPrivateUrlToken_short_token_throws [OF s])
qed

text \<open>
  C7. For a non-empty secret: the token is the base64url text of the HMAC of
  \<open>path + "\n" + expiry\<close>; verifying a freshly signed token with the same secret,
  path and expiry returns true; the gate's signed-URL check accepts that token, sent
  with its expiry in decimal, exactly while \<open>now < expiry\<close> (the clock in
  milliseconds against \<open>expiry * 1000\<close>), and whatever token it accepts comes with an
  expiry still in the future; a token signed for path A does not verify for path B
  whenever the two HMAC values differ (distinct paths give distinct payloads, and the
  digest function is an argument, so that no collision of it is assumed away silently).
\<close>

theorem sign_verify_roundtrip:
  "secret \<noteq> [] \<Longrightarrow>
     signPrivateUrl hmac secret p e
       = base64urlEncode (digestBytes (hmac secret (p @ [10] @ numberToString e)))
   \<and> verifyPrivateUrlToken hmac secret p e (signPrivateUrl hmac secret p e) = Inr True
   \<and> signedUrlCheck hmac secret p (Some (signPrivateUrl hmac secret p e))
         (Some (numberToString e)) now = Inr (now < e * 1000)
   \<and> (signedUrlCheck hmac secret p tok ex now = Inr True \<longrightarrow>
         (\<exists>x n. ex = Some x \<and> parseInt10 x = Some n \<and> now < n * 1000))
   \<and> (pB \<noteq> p \<longrightarrow> pB @ [10] @ numberToString e \<noteq> p @ [10] @ numberToString e)
   \<and> (hmac secret (pB @ [10] @ numberToString e) \<noteq> hmac secret (p @ [10] @ numberToString e) \<longrightarrow>
         verifyPrivateUrlToken hmac secret pB e (signPrivateUrl hmac secret p e) = Inr False)"
proof -
  assume s: "secret \<noteq> []"
  note ne = sign_nonempty [of hmac secret p e]
  have a: "signPrivateUrl hmac secret p e
       = base64urlEncode (digestBytes (hmac secret (p @ [10] @ numberToString e)))"
    by (simp add: signPrivateUrl_def Let_def)
  have b: "verifyPrivateUrlToken hmac secret p e (signPrivateUrl hmac secret p e) = Inr True"
    by (simp add: verify_eq [OF s ne] decode_sign timingSafeEqual_def)
  have c: "signedUrlCheck hmac secret p (Some (signPrivateUrl hmac secret p e))
         (Some (numberToString e)) now = Inr (now < e * 1000)"
    using s ne b by (simp add: signedUrlCheck_def parseInt10_numberToString Let_def)
  have d: "signedUrlCheck hmac secret p tok ex now = Inr True \<longrightarrow>
         (\<exists>x n. ex = Some x \<and> parseInt10 x = Some n \<and> now < n * 1000)"
    using s by (auto simp: signedUrlCheck_def Let_def split: option.splits if_splits)
  have e: "pB \<noteq> p \<longrightarrow> pB @ [10] @ numberToString e \<noteq> p @ [10] @ numberToString e"
    by simp
  have f: "hmac secret (pB @ [10] @ numberToString e) \<noteq> hmac secret (p @ [10] @ numberToString e) \<longrightarrow>
         verifyPrivateUrlToken hmac secret pB e (signPrivateUrl hmac secret p e) = Inr False"
  proof
    assume "hmac secret (pB @ [10] @ numberToString e) \<noteq> hmac secret (p @ [10] @ numberToString e)"
    then have "digestBytes (hmac secret (pB @ [10] @ numberToString e))
               \<noteq> digestBytes (hmac secret (p @ [10] @ numberToString e))"
      using digestBytes_inj by blast
    then show "verifyPrivateUrlToken hmac secret pB e (signPrivateUrl hmac secret p e) = Inr False"
      by (simp add: verify_eq [OF s ne] decode_sign timingSafeEqual_def length_digestBytes)
  qed
  show ?thesis using a b c d e f by blast
qed

theorem sign_verify_roundtrip_witness:
  "verifyPrivateUrlToken lengthMac (js ''s3cret'') (js ''/uploads/private/7/abc123.png'') 1730000060
     (signPrivateUrl lengthMac (js ''s3cret'') (js ''/uploads/private/7/abc123.png'') 1730000060)
     = Inr True
   \<and> signedUrlCheck lengthMac (js ''s3cret'') (js ''/uploads/private/7/abc123.png'')
       (Some (signPrivateUrl lengthMac (js ''s3cret'') (js ''/uploads/private/7/abc123.png'') 1730000060))
       (Some (js ''1730000060'')) 1730000000000 = Inr True
   \<and> signedUrlCheck lengthMac (js ''s3cret'') (js ''/uploads/private/7/abc123.png'')
       (Some (signPrivateUrl lengthMac (js ''s3cret'') (js ''/uploads/private/7/abc123.png'') 1730000060))
       (Some (js ''1730000060'')) 1730000061000 = Inr False
   \<and> verifyPrivateUrlToken lengthMac (js ''s3cret'') (js ''/uploads/private/8/x.png'') 1730000060
     (signPrivateUrl lengthMac (js ''s3cret'') (js ''/uploads/private/7/abc123.png'') 1730000060)
     = Inr False"
proof -
  have s: "js ''s3cret'' \<noteq> []" by (simp add: js_def)
  have n: "numberToString 1730000060 = js ''1730000060''"
    by (simp add: numberToString_def digitsOf.simps js_def)
  have m: "lengthMac (js ''s3cret'') (js ''/uploads/private/8/x.png'' @ [10] @ numberToString 1730000060)
         \<noteq> lengthMac (js ''s3cret'') (js ''/uploads/private/7/abc123.png'' @ [10] @ numberToString 1730000060)"
    unfolding n by (simp add: lengthMac_def js_def)
  note t = sign_verify_roundtrip [OF s, of lengthMac "js ''/uploads/private/7/abc123.png''" 1730000060]
  have 1: "verifyPrivateUrlToken lengthMac (js ''s3cret'') (js ''/uploads/private/7/abc123.png'') 1730000060
     (signPrivateUrl lengthMac (js ''s3cret'') (js ''/uploads/private/7/abc123.png'') 1730000060)
     = Inr True"
    using t by blast
  have 2: "signedUrlCheck lengthMac (js ''s3cret'') (js ''/uploads/private/7/abc123.png'')
       (Some (signPrivateUrl lengthMac (js ''s3cret'') (js ''/uploads/private/7/abc123.png'') 1730000060))
       (Some (js ''1730000060'')) 1730000000000 = Inr True"
    using t [where now = 1730000000000, THEN conjunct2, THEN conjunct2, THEN conjunct1]
    unfolding n by simp
  have 3: "signedUrlCheck lengthMac (js ''s3cret'') (js ''/uploads/private/7/abc123.png'')
       (Some (signPrivateUrl lengthMac (js ''s3cret'') (js ''/uploads/private/7/abc123.png'') 1730000060))
       (Some (js ''1730000060'')) 1730000061000 = Inr False"
    using t [where now = 1730000061000, THEN conjunct2, THEN conjunct2, THEN conjunct1]
    unfolding n by simp
  have 4: "verifyPrivateUrlToken lengthMac (js ''s3cret'') (js ''/uploads/private/8/x.png'') 1730000060
     (signPrivateUrl lengthMac (js ''s3cret'') (js ''/uploads/private/7/abc123.png'') 1730000060)
     = Inr False"
    using t [where pB = "js ''/uploads/private/8/x.png''"] m by blast
  show ?thesis using 1 2 3 4 by blast
qed

subsection \<open>The root-confined resolver\<close>

lemma split_on_nonempty: "split_on d xs \<noteq> []"
  by (induction xs) (auto split: list.splits)

lemma split_on_Cons_sep: "split_on d (d # xs) = [] # split_on d xs"
  by simp

lemma split_on_free: "s \<in> set (split_on d xs) \<Longrightarrow> d \<notin> set s"
proof (induction xs arbitrary: s)
  case Nil then show ?case by simp
next
  case (Cons c cs)
  then show ?case
    by (cases "split_on d cs") (auto split: if_splits)
qed

lemma split_on_no_sep: "d \<notin> set xs \<Longrightarrow> split_on d xs = [xs]"
  by (induction xs) auto

lemma split_on_app_sep:
  "d \<notin> set xs \<Longrightarrow> split_on d (xs @ d # ys) = xs # split_on d ys"
  by (induction xs) auto

lemma split_join:
  "segs \<noteq> [] \<Longrightarrow> \<forall>s\<in>set segs. d \<notin> set s \<Longrightarrow> split_on d (join_with d segs) = segs"
proof (induction d segs rule: join_with.induct)
  case (1 d) then show ?case by simp
next
  case (2 d p) then show ?case by (simp add: split_on_no_sep)
next
  case (3 d p q ps)
  then show ?case by (simp add: split_on_app_sep)
qed

lemma split_on_suffix:
  "\<exists>pre. split_on d (xs @ d # ys) = pre @ split_on d ys \<and> pre \<noteq> []"
proof (induction xs)
  case Nil
  show ?case by simp
next
  case (Cons c cs)
  then obtain pre where pre: "split_on d (cs @ d # ys) = pre @ split_on d ys" "pre \<noteq> []" by blast
  show ?case
  proof (cases "c = d")
    case True
    with pre have "split_on d ((c # cs) @ d # ys) = ([] # pre) @ split_on d ys" by simp
    then show ?thesis by blast
  next
    case False
    obtain x xs' where x: "pre = x # xs'" using pre(2) by (cases pre) auto
    with pre False have "split_on d ((c # cs) @ d # ys) = ((c # x) # xs') @ split_on d ys" by simp
    then show ?thesis by blast
  qed
qed


lemma plainSegment_iff:
  "plainSegment s \<longleftrightarrow> s \<noteq> [] \<and> s \<noteq> [dot] \<and> s \<noteq> [dot, dot] \<and> slash \<notin> set s"
  by (simp add: plainSegment_def)

lemma normalizeSegments_plain:
  "list_all plainSegment acc \<Longrightarrow> \<forall>s\<in>set ss. slash \<notin> set s \<Longrightarrow>
     list_all plainSegment (normalizeSegments False acc ss)"
proof (induction ss arbitrary: acc)
  case Nil
  then show ?case by simp
next
  case (Cons s ss)
  have tl: "list_all plainSegment (tl acc)" using Cons.prems(1) by (cases acc) simp_all
  have rest: "\<forall>s\<in>set ss. slash \<notin> set s" using Cons.prems(2) by simp
  have here: "slash \<notin> set s" using Cons.prems(2) by simp
  show ?case
  proof (cases "s = [] \<or> s = [dot]")
    case True
    then show ?thesis using Cons.IH [OF Cons.prems(1) rest] by auto
  next
    case False
    show ?thesis
    proof (cases "s = [dot, dot]")
      case True
      then show ?thesis
        using False Cons.IH [OF Cons.prems(1) rest] Cons.IH [OF tl rest] by (simp add: dot_def)
    next
      case nd: False
      have "plainSegment s"
        using False nd here by (simp add: plainSegment_iff)
      then have "list_all plainSegment (s # acc)"
        using Cons.prems(1) by simp
      then show ?thesis using False nd Cons.IH [OF _ rest] by simp
    qed
  qed
qed

lemma resolveLoop_cwd:
  "startsWith cwd [slash] \<Longrightarrow> snd (resolveLoop (ps @ [cwd]) acc)"
proof (induction ps arbitrary: acc)
  case Nil
  then show ?case by (cases cwd) auto
next
  case (Cons p ps)
  then show ?case by simp
qed

lemma path_resolve_absolute:
  assumes "startsWith cwd [slash]"
  shows "\<exists>segs. path_resolve cwd args = slash # join_with slash segs \<and> list_all plainSegment segs"
proof -
  obtain rp ra where r: "resolveLoop (rev args @ [cwd]) [] = (rp, ra)" by (cases "resolveLoop (rev args @ [cwd]) []")
  have ra: "ra" using resolveLoop_cwd [OF assms, of "rev args" "[]"] r by simp
  have "list_all plainSegment (normalizeSegments False [] (split_on slash rp))"
    by (rule normalizeSegments_plain) (auto dest: split_on_free)
  then show ?thesis
    using r ra by (auto simp: path_resolve_def normalizeString_def)
qed

lemma path_resolve_nonempty: "path_resolve cwd args \<noteq> []"
  by (auto simp: path_resolve_def Let_def split: prod.splits)

lemma inside_segments:
  assumes abs: "p = slash # join_with slash segs" and good: "list_all plainSegment segs"
    and pre: "p = r @ slash # rest" and r: "r \<noteq> []"
  shows "list_all plainSegment (split_on slash rest)"
proof -
  have segs: "segs \<noteq> []"
  proof
    assume "segs = []"
    with abs pre have "[slash] = r @ slash # rest" by simp
    then show False using r by (cases r) auto
  qed
  have free: "\<forall>s\<in>set segs. slash \<notin> set s"
    using good by (auto simp: list_all_iff plainSegment_iff)
  have a: "split_on slash p = [] # segs"
    unfolding abs using split_join [OF segs free] by simp
  obtain pre' where p': "split_on slash (r @ slash # rest) = pre' @ split_on slash rest" "pre' \<noteq> []"
    using split_on_suffix [of slash r rest] by blast
  obtain x xs where x: "pre' = x # xs" using p'(2) by (cases pre') auto
  from a p' pre x have "segs = xs @ split_on slash rest" by simp
  with good show ?thesis by simp
qed

text \<open>
  C1. With an absolute working directory (as \<open>process.cwd()\<close> is), for every root
  and every candidate relative path, whatever it contains, \<open>safeResolveUnderRoot\<close>
  either rejects (\<open>None\<close>) or returns an absolute path that is not the resolved
  root and lies strictly inside it: it continues the root after a separator by at
  least one segment, and no further segment is empty, \<open>.\<close> or \<open>..\<close>.
\<close>

theorem safeResolveUnderRoot_confined:
  assumes "startsWith cwd [slash]"
  shows "safeResolveUnderRoot cwd root rel = None
         \<or> (\<exists>p. safeResolveUnderRoot cwd root rel = Some p
                \<and> startsWith p [slash]
                \<and> p \<noteq> path_resolve cwd [root]
                \<and> strictlyInside (path_resolve cwd [root]) p)"
proof (cases "safeResolveUnderRoot cwd root rel")
  case None
  then show ?thesis by simp
next
  case (Some p)
  define r where "r = path_resolve cwd [root]"
  have p: "p = path_resolve cwd [r, rel]" "p \<noteq> r" "startsWith p (r @ [slash])"
    using Some by (auto simp: safeResolveUnderRoot_def Let_def r_def split: if_splits)
  obtain segs where segs: "p = slash # join_with slash segs" "list_all plainSegment segs"
    using path_resolve_absolute [OF assms, of "[r, rel]"] p(1) by blast
  obtain rest where rest: "p = r @ slash # rest"
    using p(3) by (auto simp: startsWith_iff)
  have rne: "r \<noteq> []" unfolding r_def by (rule path_resolve_nonempty)
  have "list_all plainSegment (split_on slash rest)"
    by (rule inside_segments [OF segs rest rne])
  moreover have "drop (length r + 1) p = rest" using rest by simp
  ultimately have "strictlyInside r p"
    using p(3) by (simp add: strictlyInside_def)
  moreover have "startsWith p [slash]" using segs(1) by simp
  ultimately show ?thesis using Some p(2) by (simp add: r_def)
qed


lemma example_root: "path_resolve (js ''/srv/app'') [js ''public/uploads''] = js ''/srv/app/public/uploads''"
  by (simp add: path_resolve_def normalizeString_def js_def slash_def dot_def)

lemma example_inside:
  "safeResolveUnderRoot (js ''/srv/app'') (js ''public/uploads'') (js ''a/../b/c.png'')
     = Some (js ''/srv/app/public/uploads/b/c.png'')"
  by (simp add: safeResolveUnderRoot_def path_resolve_def normalizeString_def js_def slash_def dot_def)

lemma example_escape:
  "safeResolveUnderRoot (js ''/srv/app'') (js ''public/uploads'') (js ''../../etc/passwd'') = None"
  by (simp add: safeResolveUnderRoot_def path_resolve_def normalizeString_def js_def slash_def dot_def)

theorem safeResolveUnderRoot_confined_witness:
  "startsWith (js ''/srv/app'') [slash]
   \<and> safeResolveUnderRoot (js ''/srv/app'') (js ''public/uploads'') (js ''a/../b/c.png'')
       = Some (js ''/srv/app/public/uploads/b/c.png'')
   \<and> strictlyInside (js ''/srv/app/public/uploads'') (js ''/srv/app/public/uploads/b/c.png'')
   \<and> safeResolveUnderRoot (js ''/srv/app'') (js ''public/uploads'') (js ''../../etc/passwd'') = None"
proof -
  have c: "startsWith (js ''/srv/app'') [slash]" by (simp add: js_def slash_def)
  have "strictlyInside (js ''/srv/app/public/uploads'') (js ''/srv/app/public/uploads/b/c.png'')"
    using safeResolveUnderRoot_confined [OF c, of "js ''public/uploads''" "js ''a/../b/c.png''"]
    unfolding example_inside example_root by simp
  then show ?thesis using c example_inside example_escape by simp
qed

subsection \<open>Sanitizers\<close>

lemma latin1Table_ascii: "c < 128 \<Longrightarrow> map_of latin1Table c = None"
  by (simp add: latin1Table_def)

lemma latin1Nfd_ascii: "list_all (\<lambda>c. c < 128) s \<Longrightarrow> latin1Nfd s = s"
  by (induction s) (simp_all add: latin1Nfd_def latin1Table_ascii)

lemma asciiFixed_latin1Nfd: "asciiFixed latin1Nfd"
  by (simp add: asciiFixed_def latin1Nfd_ascii)

lemma filter_all: "list_all P xs \<Longrightarrow> filter P xs = xs"
  by (induction xs) simp_all

lemma replaceRuns_Cons_other: "\<not> P c \<Longrightarrow> replaceRuns P r (c # cs) = c # replaceRuns P r cs"
  by (cases cs) simp_all

lemma replaceRuns_none: "list_all (\<lambda>c. \<not> P c) xs \<Longrightarrow> replaceRuns P r xs = xs"
  by (induction xs) (simp_all add: replaceRuns_Cons_other)

lemma replaceRuns_replicate:
  "\<not> P c \<Longrightarrow> replaceRuns P r (replicate n c @ ys) = replicate n c @ replaceRuns P r ys"
  by (induction n) (simp_all add: replaceRuns_Cons_other)

lemma dropWhile_none: "xs \<noteq> [] \<Longrightarrow> \<not> P (hd xs) \<Longrightarrow> dropWhile P xs = xs"
  by (cases xs) simp_all

lemma stripTrailing_keep: "\<not> P b \<Longrightarrow> stripTrailing P (xs @ [b]) = xs @ [b]"
  by (simp add: stripTrailing_def)

lemma stripTrailing_drop: "P b \<Longrightarrow> stripTrailing P (xs @ [b]) = stripTrailing P xs"
  by (simp add: stripTrailing_def)

lemma stripTrailing_replicate: "\<not> P a \<Longrightarrow> stripTrailing P (replicate n a) = replicate n a"
  by (cases n) (simp_all add: stripTrailing_def replicate_append_same [symmetric] del: replicate_Suc)

lemma trim_keep: "xs \<noteq> [] \<Longrightarrow> \<not> isSpace (hd xs) \<Longrightarrow> \<not> isSpace (last xs) \<Longrightarrow> trim xs = xs"
proof -
  assume a: "xs \<noteq> []" "\<not> isSpace (hd xs)" "\<not> isSpace (last xs)"
  then have "dropWhile isSpace xs = xs" by (simp add: dropWhile_none)
  moreover have "dropWhile isSpace (rev xs) = rev xs"
    using a by (simp add: dropWhile_none hd_rev)
  ultimately show ?thesis by (simp add: trim_def)
qed

lemma char_facts: "\<not> isSpace 97" "\<not> isCombiningMark 97" "allowedDirChar 97" "97 \<noteq> dash" "97 \<noteq> dot"
  "97 \<noteq> slash" "97 \<noteq> backslash"
  "\<not> isSpace 98" "\<not> isCombiningMark 98" "allowedDirChar 98" "98 \<noteq> dash" "98 \<noteq> slash" "98 \<noteq> backslash"
  "\<not> isSpace dash" "\<not> isCombiningMark dash" "allowedDirChar dash" "dash < 128" "dash \<noteq> slash" "dash \<noteq> backslash"
  "slash \<noteq> dash" "slash \<noteq> 98" "slash \<noteq> 97" "backslash \<noteq> dash" "backslash \<noteq> 98" "backslash \<noteq> 97"
  by (simp_all add: isSpace_def isCombiningMark_def allowedDirChar_def isAlnum_def dash_def dot_def slash_def backslash_def)

lemma longSegment_ascii: "list_all (\<lambda>c. c < 128) longSegment"
  by (simp add: longSegment_def list_all_iff char_facts)

lemma sanitizeSegment_long:
  assumes "asciiFixed nfd"
  shows "sanitizeSegment nfd longSegment = longSegment"
proof -
  have n: "nfd longSegment = longSegment"
    using assms longSegment_ascii by (simp add: asciiFixed_def)
  have 1: "filter (\<lambda>c. \<not> isCombiningMark c) longSegment = longSegment"
    by (rule filter_all) (simp add: longSegment_def list_all_iff char_facts)
  have 2: "replaceRuns isSpace dash longSegment = longSegment"
    by (rule replaceRuns_none) (simp add: longSegment_def list_all_iff char_facts)
  have 3: "filter allowedDirChar longSegment = longSegment"
    by (rule filter_all) (simp add: longSegment_def list_all_iff char_facts)
  have 4: "replaceRuns (\<lambda>c. c = dash) dash longSegment = longSegment"
    unfolding longSegment_def by (simp add: replaceRuns_replicate char_facts)
  have 5: "dropWhile (\<lambda>c. c = dot \<or> c = dash) longSegment = longSegment"
    by (rule dropWhile_none) (simp_all add: longSegment_def char_facts hd_append)
  have 6: "stripTrailing (\<lambda>c. c = dash) longSegment = longSegment"
    using stripTrailing_keep [of "\<lambda>c. c = dash" 98 "replicate 127 97 @ [dash]"]
    by (simp add: longSegment_def char_facts)
  show ?thesis
    unfolding sanitizeSegment_def Let_def n 1 2 3 4 5 6 ..
qed


lemma cutSegment_ascii: "list_all (\<lambda>c. c < 128) cutSegment"
  by (simp add: cutSegment_def list_all_iff char_facts)

lemma sanitizeSegment_cut:
  assumes "asciiFixed nfd"
  shows "sanitizeSegment nfd cutSegment = replicate 127 97"
proof -
  have n: "nfd cutSegment = cutSegment"
    using assms cutSegment_ascii by (simp add: asciiFixed_def)
  have 1: "filter (\<lambda>c. \<not> isCombiningMark c) cutSegment = cutSegment"
    by (rule filter_all) (simp add: cutSegment_def list_all_iff char_facts)
  have 2: "replaceRuns isSpace dash cutSegment = cutSegment"
    by (rule replaceRuns_none) (simp add: cutSegment_def list_all_iff char_facts)
  have 3: "filter allowedDirChar cutSegment = cutSegment"
    by (rule filter_all) (simp add: cutSegment_def list_all_iff char_facts)
  have 4: "replaceRuns (\<lambda>c. c = dash) dash cutSegment = cutSegment"
    unfolding cutSegment_def by (simp add: replaceRuns_replicate char_facts)
  have 5: "dropWhile (\<lambda>c. c = dot \<or> c = dash) cutSegment = cutSegment"
    by (rule dropWhile_none) (simp_all add: cutSegment_def char_facts hd_append)
  have 6: "stripTrailing (\<lambda>c. c = dash) cutSegment = replicate 127 97"
    unfolding cutSegment_def
    by (simp add: stripTrailing_drop stripTrailing_replicate char_facts)
  show ?thesis
    unfolding sanitizeSegment_def Let_def n 1 2 3 4 5 6 ..
qed

lemma sanitizePathDir_single:
  assumes fx: "asciiFixed nfd" and ascii: "list_all (\<lambda>c. c < 128) s"
    and ne: "s \<noteq> []" and sp: "\<not> isSpace (hd s)" "\<not> isSpace (last s)"
    and fr: "slash \<notin> set s" "backslash \<notin> set s"
  shows "sanitizePathDir nfd s = join_with slash (sanitizeParts nfd [s])"
proof -
  have n: "nfd s = s" using fx ascii by (simp add: asciiFixed_def)
  have t: "trim s = s" using ne sp by (rule trim_keep)
  have b: "backslashToSlash s = s"
    using fr(2) by (induction s) (simp_all add: backslashToSlash_def)
  have p: "split_on slash s = [s]" using fr(1) by (rule split_on_no_sep)
  have len: "length (join_with slash (sanitizeParts nfd [s])) \<le> 128"
    by (simp add: Let_def)
  show ?thesis
    unfolding sanitizePathDir_def n t b p Let_def
    using ne t len by simp
qed

lemma allowedFolderChar_facts:
  assumes "allowedFolderChar c"
  shows "c < 128" "\<not> isCombiningMark c" "isSpace c \<longleftrightarrow> c = space" "c \<noteq> slash" "c \<noteq> backslash"
  using assms
  by (auto simp: allowedFolderChar_def isAlnum_def isCombiningMark_def isSpace_def space_def
      dash_def slash_def backslash_def)

lemma allowed_space: "allowedFolderChar space" "isSpace space"
  by (simp_all add: allowedFolderChar_def isSpace_def space_def)

lemma doubleSpaceFree_part: "doubleSpaceFree (a @ s @ b) \<Longrightarrow> doubleSpaceFree s"
  unfolding doubleSpaceFree_def includes_iff
  by (metis append.assoc)

lemma doubleSpaceFree_tl: "doubleSpaceFree (c # s) \<Longrightarrow> doubleSpaceFree s"
  using doubleSpaceFree_part [of "[c]" s "[]"] by simp

lemma doubleSpaceFree_Cons:
  "doubleSpaceFree s \<Longrightarrow> (s \<noteq> [] \<Longrightarrow> \<not> (c = space \<and> hd s = space)) \<Longrightarrow> doubleSpaceFree (c # s)"
  by (cases s) (auto simp: doubleSpaceFree_def)

lemma doubleSpaceFree_two: "doubleSpaceFree (c # d # s) \<Longrightarrow> \<not> (c = space \<and> d = space)"
  by (auto simp: doubleSpaceFree_def)

lemma replaceRuns_normal:
  "list_all allowedFolderChar s \<Longrightarrow> doubleSpaceFree s \<Longrightarrow> replaceRuns isSpace space s = s"
proof (induction isSpace space s rule: replaceRuns.induct)
  case 1
  show ?case by simp
next
  case (2 c)
  then show ?case by (simp add: allowedFolderChar_facts(3))
next
  case (3 c d cs)
  have t: "doubleSpaceFree (d # cs)" using "3.prems"(2) by (rule doubleSpaceFree_tl)
  have a: "list_all allowedFolderChar (d # cs)" using "3.prems"(1) by simp
  have cd: "\<not> (c = space \<and> d = space)" using "3.prems"(2) by (rule doubleSpaceFree_two)
  have c: "isSpace c \<longleftrightarrow> c = space" and d: "isSpace d \<longleftrightarrow> d = space"
    using "3.prems"(1) by (simp_all add: allowedFolderChar_facts(3))
  show ?case
  proof (cases "isSpace c")
    case True
    then have nd: "\<not> isSpace d" using cd c d by simp
    have "replaceRuns isSpace space (d # cs) = d # cs"
      using "3.hyps"(2) [OF True nd a t] .
    with True nd c show ?thesis by simp
  next
    case False
    have "replaceRuns isSpace space (d # cs) = d # cs"
      using "3.hyps"(3) [OF False a t] .
    with False show ?thesis by simp
  qed
qed

lemma replaceRuns_allowed:
  "list_all allowedFolderChar s \<Longrightarrow> list_all allowedFolderChar (replaceRuns isSpace space s)"
  by (induction isSpace space s rule: replaceRuns.induct) (auto simp: allowed_space)

lemma replaceRuns_hd:
  "s \<noteq> [] \<Longrightarrow> \<not> isSpace (hd s) \<Longrightarrow> hd (replaceRuns isSpace space s) = hd s"
  by (cases s) (simp_all add: replaceRuns_Cons_other)

lemma replaceRuns_nonempty: "s \<noteq> [] \<Longrightarrow> replaceRuns P r s \<noteq> []"
  by (induction P r s rule: replaceRuns.induct) auto

lemma replaceRuns_free:
  "list_all allowedFolderChar s \<Longrightarrow> doubleSpaceFree (replaceRuns isSpace space s)"
proof (induction isSpace space s rule: replaceRuns.induct)
  case 1
  show ?case by (simp add: doubleSpaceFree_def)
next
  case (2 c)
  show ?case by (simp add: doubleSpaceFree_def)
next
  case (3 c d cs)
  have a: "list_all allowedFolderChar (d # cs)" using "3.prems" by simp
  have c: "isSpace c \<longleftrightarrow> c = space" and d: "isSpace d \<longleftrightarrow> d = space"
    using "3.prems" by (simp_all add: allowedFolderChar_facts(3))
  have ne: "replaceRuns isSpace space (d # cs) \<noteq> []" by (rule replaceRuns_nonempty) simp
  show ?case
  proof (cases "isSpace c")
    case True
    show ?thesis
    proof (cases "isSpace d")
      case dT: True
      then show ?thesis using True "3.hyps"(1) [OF True dT a] by simp
    next
      case dF: False
      have ih: "doubleSpaceFree (replaceRuns isSpace space (d # cs))"
        using "3.hyps"(2) [OF True dF a] .
      have "hd (replaceRuns isSpace space (d # cs)) = d"
        using replaceRuns_hd [of "d # cs"] dF by simp
      then have "doubleSpaceFree (space # replaceRuns isSpace space (d # cs))"
        using ih dF d by (intro doubleSpaceFree_Cons) simp_all
      with True dF show ?thesis by simp
    qed
  next
    case False
    have ih: "doubleSpaceFree (replaceRuns isSpace space (d # cs))"
      using "3.hyps"(3) [OF False a] .
    have "doubleSpaceFree (c # replaceRuns isSpace space (d # cs))"
      using ih False c by (intro doubleSpaceFree_Cons) simp_all
    with False show ?thesis by simp
  qed
qed

lemma trim_part: "\<exists>a b. s = a @ trim s @ b"
proof -
  have 1: "s = takeWhile isSpace s @ dropWhile isSpace s" by simp
  define w where "w = dropWhile isSpace s"
  have "rev w = takeWhile isSpace (rev w) @ dropWhile isSpace (rev w)" by simp
  then have "w = rev (dropWhile isSpace (rev w)) @ rev (takeWhile isSpace (rev w))"
    by (metis rev_append rev_rev_ident)
  then have "s = takeWhile isSpace s @ trim s @ rev (takeWhile isSpace (rev w))"
    using 1 by (simp add: trim_def w_def)
  then show ?thesis by blast
qed

lemma list_all_part: "list_all P (a @ s @ b) \<Longrightarrow> list_all P s"
  by simp

lemma trim_allowed: "list_all P s \<Longrightarrow> list_all P (trim s)"
  using trim_part [of s] list_all_part by metis

lemma trim_free: "doubleSpaceFree s \<Longrightarrow> doubleSpaceFree (trim s)"
  using trim_part [of s] doubleSpaceFree_part by metis

lemma trim_length: "length (trim s) \<le> length s"
proof -
  obtain a b where "s = a @ trim s @ b" using trim_part by blast
  then have "length s = length a + length (trim s) + length b" by (metis length_append add.assoc)
  then show ?thesis by simp
qed

lemma dropWhile_hd: "dropWhile P xs \<noteq> [] \<Longrightarrow> \<not> P (hd (dropWhile P xs))"
  using hd_dropWhile by blast

lemma dropWhile_last: "dropWhile P xs \<noteq> [] \<Longrightarrow> last (dropWhile P xs) = last xs"
  by (induction xs) (auto split: if_splits)

lemma trim_ends:
  assumes "trim s \<noteq> []"
  shows "\<not> isSpace (hd (trim s))" "\<not> isSpace (last (trim s))"
proof -
  define w where "w = dropWhile isSpace s"
  define y where "y = dropWhile isSpace (rev w)"
  have t: "trim s = rev y" by (simp add: trim_def w_def y_def)
  have y: "y \<noteq> []" using assms t by simp
  then have w: "w \<noteq> []" by (auto simp: y_def)
  have "\<not> isSpace (hd y)" using y unfolding y_def by (rule dropWhile_hd)
  then show "\<not> isSpace (last (trim s))" using y t by (simp add: last_rev)
  have "last y = last (rev w)" using y unfolding y_def by (rule dropWhile_last)
  then have "last y = hd w" using w by (simp add: last_rev)
  moreover have "\<not> isSpace (hd w)" using w unfolding w_def by (rule dropWhile_hd)
  ultimately show "\<not> isSpace (hd (trim s))" using y t by (simp add: hd_rev)
qed

lemma take_part: "\<exists>a b. s = a @ take n s @ b"
  by (metis append_Nil append_take_drop_id)

lemma folderNormal_trimmed:
  assumes "list_all allowedFolderChar s" "doubleSpaceFree s" "length (trim s) \<le> 128"
  shows "folderNormal (trim s)"
proof -
  have e: "trim s \<noteq> [] \<longrightarrow> hd (trim s) \<noteq> space \<and> last (trim s) \<noteq> space"
    using trim_ends [of s] allowed_space(2) by metis
  show ?thesis
    unfolding folderNormal_def
    using trim_allowed [OF assms(1)] trim_free [OF assms(2)] e assms(3) by simp
qed

lemma sanitizeAdminFolderName_normal: "folderNormal (sanitizeAdminFolderName nfd x)"
proof -
  define t where "t = filter allowedFolderChar (filter (\<lambda>c. \<not> isCombiningMark c) (nfd x))"
  define u where "u = replaceRuns isSpace space t"
  have t: "list_all allowedFolderChar t" by (simp add: t_def list_all_iff)
  have u: "list_all allowedFolderChar u" "doubleSpaceFree u"
    using t by (simp_all add: u_def replaceRuns_allowed replaceRuns_free)
  have v: "list_all allowedFolderChar (trim u)" "doubleSpaceFree (trim u)"
    using u by (simp_all add: trim_allowed trim_free)
  have r: "sanitizeAdminFolderName nfd x = (if length (trim u) > 128 then trim (take 128 (trim u)) else trim u)"
    by (simp add: sanitizeAdminFolderName_def Let_def t_def u_def)
  show ?thesis
  proof (cases "length (trim u) > 128")
    case True
    obtain a b where ab: "trim u = a @ take 128 (trim u) @ b" using take_part by blast
    have 1: "list_all allowedFolderChar (take 128 (trim u))"
      using v(1) ab list_all_part by metis
    have 2: "doubleSpaceFree (take 128 (trim u))"
      using v(2) ab doubleSpaceFree_part by metis
    have "length (trim (take 128 (trim u))) \<le> length (take 128 (trim u))" by (rule trim_length)
    then have 3: "length (trim (take 128 (trim u))) \<le> 128" by simp
    have "folderNormal (trim (take 128 (trim u)))"
      by (rule folderNormal_trimmed [OF 1 2 3])
    with True r show ?thesis by simp
  next
    case False
    then have 3: "length (trim u) \<le> 128" by simp
    have "folderNormal (trim u)"
      by (rule folderNormal_trimmed [OF u 3])
    with False r show ?thesis by simp
  qed
qed

lemma sanitizeAdminFolderName_fixed:
  assumes "asciiFixed nfd" and n: "folderNormal s"
  shows "sanitizeAdminFolderName nfd s = s"
proof -
  have a: "list_all allowedFolderChar s" and f: "doubleSpaceFree s" and l: "length s \<le> 128"
    and e: "s \<noteq> [] \<longrightarrow> hd s \<noteq> space \<and> last s \<noteq> space"
    using n by (simp_all add: folderNormal_def)
  have "list_all (\<lambda>c. c < 128) s"
    using a by (induction s) (simp_all add: allowedFolderChar_facts(1))
  then have 1: "nfd s = s" using assms(1) by (simp add: asciiFixed_def)
  have 2: "filter (\<lambda>c. \<not> isCombiningMark c) s = s"
    using a by (induction s) (simp_all add: allowedFolderChar_facts(2))
  have 3: "filter allowedFolderChar s = s" using a by (rule filter_all)
  have 4: "replaceRuns isSpace space s = s" using a f by (rule replaceRuns_normal)
  have 5: "trim s = s"
  proof (cases "s = []")
    case True then show ?thesis by (simp add: trim_def)
  next
    case False
    have "allowedFolderChar (hd s)" "allowedFolderChar (last s)"
      using a False by (simp_all add: list_all_iff)
    then have "\<not> isSpace (hd s)" "\<not> isSpace (last s)"
      using e False by (simp_all add: allowedFolderChar_facts(3))
    with False show ?thesis by (intro trim_keep)
  qed
  show ?thesis
    using l by (simp add: sanitizeAdminFolderName_def Let_def 1 2 3 4 5)
qed

lemma join_with_set: "set (join_with d ps) \<subseteq> insert d (\<Union> (set ` set ps))"
  by (induction d ps rule: join_with.induct) auto

lemma join_with_hd: "ps \<noteq> [] \<Longrightarrow> hd ps \<noteq> [] \<Longrightarrow> hd (join_with d ps) = hd (hd ps)"
  by (induction d ps rule: join_with.induct) simp_all

lemma join_with_last:
  "ps \<noteq> [] \<Longrightarrow> last ps \<noteq> [] \<Longrightarrow> last (join_with d ps) = last (last ps)"
proof (induction d ps rule: join_with.induct)
  case (1 d) then show ?case by simp
next
  case (2 d p) then show ?case by simp
next
  case (3 d p q ps)
  then have "last (join_with d (q # ps)) = last (last (q # ps))" by simp
  moreover have "join_with d (q # ps) \<noteq> []"
    using 3 by (cases ps) auto
  ultimately show ?case by simp
qed

lemma join_with_nonempty: "ps \<noteq> [] \<Longrightarrow> hd ps \<noteq> [] \<Longrightarrow> join_with d ps \<noteq> []"
  by (induction d ps rule: join_with.induct) simp_all

lemma sanitizeAdminFolderPath_parts:
  "\<exists>parts. sanitizeAdminFolderPath nfd x = join_with slash parts
            \<and> (\<forall>p\<in>set parts. folderNormal p \<and> p \<noteq> [])"
proof (cases "backslashToSlash (trim x) = []")
  case True
  then have "sanitizeAdminFolderPath nfd x = join_with slash []"
    by (simp add: sanitizeAdminFolderPath_def)
  then show ?thesis by fastforce
next
  case False
  define parts where
    "parts = filter (\<lambda>p. p \<noteq> []) (map (sanitizeAdminFolderName nfd) (split_on slash (backslashToSlash (trim x))))"
  have "sanitizeAdminFolderPath nfd x = join_with slash parts"
    using False by (simp add: sanitizeAdminFolderPath_def Let_def parts_def)
  moreover have "\<forall>p\<in>set parts. folderNormal p \<and> p \<noteq> []"
    by (auto simp: parts_def sanitizeAdminFolderName_normal)
  ultimately show ?thesis by blast
qed

text \<open>
  The metadata-folder policy is idempotent on every input: \<open>sanitizeAdminFolderName\<close>
  trims again after its cut, so its results are fixed points.
\<close>

lemma sanitizeAdminFolderPath_idempotent:
  assumes fx: "asciiFixed nfd"
  shows "sanitizeAdminFolderPath nfd (sanitizeAdminFolderPath nfd x) = sanitizeAdminFolderPath nfd x"
proof -
  obtain parts where y: "sanitizeAdminFolderPath nfd x = join_with slash parts"
    and n: "\<forall>p\<in>set parts. folderNormal p \<and> p \<noteq> []"
    using sanitizeAdminFolderPath_parts by blast
  show ?thesis
  proof (cases "parts = []")
    case True
    then show ?thesis
      unfolding y by (simp add: sanitizeAdminFolderPath_def trim_def backslashToSlash_def)
  next
    case False
    define z where "z = join_with slash parts"
    have hp: "hd parts \<in> set parts" and lp: "last parts \<in> set parts" using False by simp_all
    have hne: "hd parts \<noteq> []" and lne: "last parts \<noteq> []" using n hp lp by blast+
    have zne: "z \<noteq> []" unfolding z_def using False hne by (rule join_with_nonempty)
    have allowed: "allowedFolderChar c" if "p \<in> set parts" "c \<in> set p" for p c
      using n that by (auto simp: folderNormal_def list_all_iff)
    have "hd z = hd (hd parts)" unfolding z_def using False hne by (rule join_with_hd)
    moreover have "hd (hd parts) \<noteq> space" using n hp hne by (auto simp: folderNormal_def)
    moreover have "allowedFolderChar (hd (hd parts))" using allowed [OF hp] hne by simp
    ultimately have h: "\<not> isSpace (hd z)" by (simp add: allowedFolderChar_facts(3))
    have "last z = last (last parts)" unfolding z_def using False lne by (rule join_with_last)
    moreover have "last (last parts) \<noteq> space" using n lp lne by (auto simp: folderNormal_def)
    moreover have "allowedFolderChar (last (last parts))" using allowed [OF lp] lne by simp
    ultimately have l: "\<not> isSpace (last z)" by (simp add: allowedFolderChar_facts(3))
    have t: "trim z = z" using zne h l by (rule trim_keep)
    have "c \<noteq> backslash" if "c \<in> set z" for c
    proof -
      from that join_with_set [of slash parts]
      consider "c = slash" | p where "p \<in> set parts" "c \<in> set p" unfolding z_def by auto
      then show ?thesis
      proof cases
        case 1 then show ?thesis by (simp add: slash_def backslash_def)
      next
        case 2 then show ?thesis using allowed allowedFolderChar_facts(5) by blast
      qed
    qed
    then have b: "backslashToSlash z = z"
      unfolding backslashToSlash_def by (induction z) simp_all
    have free: "\<forall>p\<in>set parts. slash \<notin> set p"
      using allowed allowedFolderChar_facts(4) by blast
    have sp: "split_on slash z = parts" unfolding z_def using False free by (rule split_join)
    have m: "map (sanitizeAdminFolderName nfd) parts = parts"
      using n by (intro map_idI) (simp add: sanitizeAdminFolderName_fixed [OF fx])
    have f: "filter (\<lambda>p. p \<noteq> []) parts = parts" using n by (intro filter_True) simp
    have "sanitizeAdminFolderPath nfd z = z"
      using zne by (simp add: sanitizeAdminFolderPath_def Let_def t b sp m f z_def [symmetric])
    then show ?thesis unfolding y z_def .
  qed
qed

subsubsection \<open>sanitizePathDir below its caps\<close>

lemmas char_defs = slash_def dot_def dash_def backslash_def space_def

lemmas sanitize_defs = sanitizePathDir_def sanitizeSegment_def trim_def backslashToSlash_def
  stripTrailing_def isSpace_def isCombiningMark_def allowedDirChar_def isAlnum_def

lemma allowedDirChar_facts:
  assumes "allowedDirChar c"
  shows "c < 128" "\<not> isCombiningMark c" "\<not> isSpace c" "c \<noteq> slash" "c \<noteq> backslash"
  using assms
  by (auto simp: allowedDirChar_def isAlnum_def isCombiningMark_def isSpace_def dot_def
      dash_def slash_def backslash_def)

lemma doubleDashFree_part: "doubleDashFree (a @ s @ b) \<Longrightarrow> doubleDashFree s"
  unfolding doubleDashFree_def includes_iff
  by (metis append.assoc)

lemma doubleDashFree_tl: "doubleDashFree (c # s) \<Longrightarrow> doubleDashFree s"
  using doubleDashFree_part [of "[c]" s "[]"] by simp

lemma doubleDashFree_Cons:
  "doubleDashFree s \<Longrightarrow> (s \<noteq> [] \<Longrightarrow> \<not> (c = dash \<and> hd s = dash)) \<Longrightarrow> doubleDashFree (c # s)"
  by (cases s) (auto simp: doubleDashFree_def)

lemma doubleDashFree_two: "doubleDashFree (c # d # s) \<Longrightarrow> \<not> (c = dash \<and> d = dash)"
  by (auto simp: doubleDashFree_def)

lemma collapse_normal: "doubleDashFree s \<Longrightarrow> replaceRuns (\<lambda>c. c = dash) dash s = s"
proof (induction "\<lambda>c. c = dash" dash s rule: replaceRuns.induct)
  case 1
  show ?case by simp
next
  case (2 c)
  show ?case by simp
next
  case (3 c d cs)
  have t: "doubleDashFree (d # cs)" using "3.prems" by (rule doubleDashFree_tl)
  have cd: "\<not> (c = dash \<and> d = dash)" using "3.prems" by (rule doubleDashFree_two)
  show ?case
  proof (cases "c = dash")
    case True
    then have nd: "d \<noteq> dash" using cd by simp
    have "replaceRuns (\<lambda>c. c = dash) dash (d # cs) = d # cs"
      using "3.hyps"(2) [OF True nd t] .
    with True nd show ?thesis by simp
  next
    case False
    have "replaceRuns (\<lambda>c. c = dash) dash (d # cs) = d # cs"
      using "3.hyps"(3) [OF False t] .
    with False show ?thesis by simp
  qed
qed

lemma collapse_free: "doubleDashFree (replaceRuns (\<lambda>c. c = dash) dash s)"
proof (induction "\<lambda>c. c = dash" dash s rule: replaceRuns.induct)
  case 1
  show ?case by (simp add: doubleDashFree_def)
next
  case (2 c)
  show ?case by (simp add: doubleDashFree_def)
next
  case (3 c d cs)
  show ?case
  proof (cases "c = dash")
    case True
    show ?thesis
    proof (cases "d = dash")
      case dT: True
      then show ?thesis using True "3.hyps"(1) [OF True dT] by simp
    next
      case dF: False
      have ih: "doubleDashFree (replaceRuns (\<lambda>c. c = dash) dash (d # cs))"
        using "3.hyps"(2) [OF True dF] .
      have "hd (replaceRuns (\<lambda>c. c = dash) dash (d # cs)) = d"
        using dF by (simp add: replaceRuns_Cons_other)
      then have "doubleDashFree (dash # replaceRuns (\<lambda>c. c = dash) dash (d # cs))"
        using ih dF by (intro doubleDashFree_Cons) simp_all
      with True dF show ?thesis by simp
    qed
  next
    case False
    have ih: "doubleDashFree (replaceRuns (\<lambda>c. c = dash) dash (d # cs))"
      using "3.hyps"(3) [OF False] .
    have "doubleDashFree (c # replaceRuns (\<lambda>c. c = dash) dash (d # cs))"
      using ih False by (intro doubleDashFree_Cons) simp_all
    with False show ?thesis by simp
  qed
qed

lemma collapse_allowed:
  "list_all allowedDirChar s \<Longrightarrow> list_all allowedDirChar (replaceRuns (\<lambda>c. c = dash) dash s)"
  by (induction "\<lambda>c. c = dash" dash s rule: replaceRuns.induct) (auto simp: allowedDirChar_def)

lemma dropWhile_part: "\<exists>a b. s = a @ dropWhile P s @ b"
  by (metis append_Nil2 takeWhile_dropWhile_id)

lemma stripTrailing_part: "\<exists>a b. s = a @ stripTrailing P s @ b"
proof -
  have "rev s = takeWhile P (rev s) @ dropWhile P (rev s)" by simp
  then have "s = rev (dropWhile P (rev s)) @ rev (takeWhile P (rev s))"
    by (metis rev_append rev_rev_ident)
  then have "s = [] @ stripTrailing P s @ rev (takeWhile P (rev s))"
    by (simp add: stripTrailing_def)
  then show ?thesis by blast
qed

lemma stripTrailing_prefix: "\<exists>b. s = stripTrailing P s @ b"
  using stripTrailing_part [of s P]
proof -
  have "rev s = takeWhile P (rev s) @ dropWhile P (rev s)" by simp
  then have "s = rev (dropWhile P (rev s)) @ rev (takeWhile P (rev s))"
    by (metis rev_append rev_rev_ident)
  then show ?thesis by (metis stripTrailing_def)
qed

lemma stripTrailing_last: "stripTrailing P s \<noteq> [] \<Longrightarrow> \<not> P (last (stripTrailing P s))"
proof -
  assume a: "stripTrailing P s \<noteq> []"
  then have "dropWhile P (rev s) \<noteq> []" by (simp add: stripTrailing_def)
  then have "\<not> P (hd (dropWhile P (rev s)))" by (rule dropWhile_hd)
  then show ?thesis using a by (simp add: stripTrailing_def last_rev)
qed

lemma stripTrailing_hd: "stripTrailing P s \<noteq> [] \<Longrightarrow> hd (stripTrailing P s) = hd s"
proof -
  assume a: "stripTrailing P s \<noteq> []"
  obtain b where "s = stripTrailing P s @ b" using stripTrailing_prefix by blast
  then have "hd s = hd (stripTrailing P s @ b)" by simp
  then show ?thesis using a by simp
qed

lemma stripTrailing_none: "s \<noteq> [] \<Longrightarrow> \<not> P (last s) \<Longrightarrow> stripTrailing P s = s"
  by (simp add: stripTrailing_def dropWhile_none hd_rev)

lemma sanitizeSegment_normal:
  "sanitizeSegment nfd part = [] \<or> dirNormal (sanitizeSegment nfd part)"
proof -
  define s4 where "s4 = filter allowedDirChar (replaceRuns isSpace dash (filter (\<lambda>c. \<not> isCombiningMark c) (nfd part)))"
  define s5 where "s5 = replaceRuns (\<lambda>c. c = dash) dash s4"
  define s6 where "s6 = dropWhile (\<lambda>c. c = dot \<or> c = dash) s5"
  define s7 where "s7 = stripTrailing (\<lambda>c. c = dash) s6"
  have r: "sanitizeSegment nfd part = s7"
    by (simp add: sanitizeSegment_def Let_def s4_def s5_def s6_def s7_def)
  have a4: "list_all allowedDirChar s4" by (simp add: s4_def list_all_iff)
  have a5: "list_all allowedDirChar s5" "doubleDashFree s5"
    using a4 by (simp_all add: s5_def collapse_allowed collapse_free)
  obtain a b where ab: "s5 = a @ s6 @ b" unfolding s6_def using dropWhile_part by blast
  have a6: "list_all allowedDirChar s6" "doubleDashFree s6"
    using a5 ab list_all_part doubleDashFree_part by metis+
  obtain c d where cd: "s6 = c @ s7 @ d" unfolding s7_def using stripTrailing_part by blast
  have a7: "list_all allowedDirChar s7" "doubleDashFree s7"
    using a6 cd list_all_part doubleDashFree_part by metis+
  show ?thesis
  proof (cases "s7 = []")
    case True
    then show ?thesis using r by simp
  next
    case False
    then have n6: "s6 \<noteq> []" using cd by auto
    have "\<not> (hd s6 = dot \<or> hd s6 = dash)" using n6 unfolding s6_def by (rule dropWhile_hd)
    moreover have "hd s7 = hd s6" using False unfolding s7_def by (rule stripTrailing_hd)
    moreover have "last s7 \<noteq> dash" using stripTrailing_last [of "\<lambda>c. c = dash" s6] False by (simp add: s7_def)
    ultimately have "dirNormal s7" using a7 False by (simp add: dirNormal_def)
    then show ?thesis using r by simp
  qed
qed

lemma sanitizeSegment_fixed:
  assumes "asciiFixed nfd" and n: "dirNormal s"
  shows "sanitizeSegment nfd s = s"
proof -
  have a: "list_all allowedDirChar s" and f: "doubleDashFree s" and ne: "s \<noteq> []"
    and h: "\<not> (hd s = dot \<or> hd s = dash)" and l: "last s \<noteq> dash"
    using n by (simp_all add: dirNormal_def)
  have "list_all (\<lambda>c. c < 128) s"
    using a by (induction s) (simp_all add: allowedDirChar_facts(1))
  then have 1: "nfd s = s" using assms(1) by (simp add: asciiFixed_def)
  have 2: "filter (\<lambda>c. \<not> isCombiningMark c) s = s"
    using a by (induction s) (simp_all add: allowedDirChar_facts(2))
  have "list_all (\<lambda>c. \<not> isSpace c) s"
    using a by (induction s) (simp_all add: allowedDirChar_facts(3))
  then have 3: "replaceRuns isSpace dash s = s" by (rule replaceRuns_none)
  have 4: "filter allowedDirChar s = s" using a by (rule filter_all)
  have 5: "replaceRuns (\<lambda>c. c = dash) dash s = s" using f by (rule collapse_normal)
  have 6: "dropWhile (\<lambda>c. c = dot \<or> c = dash) s = s" using ne h by (rule dropWhile_none)
  have 7: "stripTrailing (\<lambda>c. c = dash) s = s" using ne l by (rule stripTrailing_none)
  show ?thesis by (simp add: sanitizeSegment_def Let_def 1 2 3 4 5 6 7)
qed

lemma dirNormal_facts:
  assumes "dirNormal s"
  shows "s \<noteq> []" "s \<noteq> [dot]" "s \<noteq> [dot, dot]" "\<not> isSpace (hd s)" "\<not> isSpace (last s)"
    "slash \<notin> set s" "backslash \<notin> set s" "list_all (\<lambda>c. c < 128) s"
proof -
  have a: "list_all allowedDirChar s" and ne: "s \<noteq> []" and h: "hd s \<noteq> dot"
    using assms by (simp_all add: dirNormal_def)
  have m: "allowedDirChar c" if "c \<in> set s" for c using a that by (simp add: list_all_iff)
  show "s \<noteq> []" by (rule ne)
  show "s \<noteq> [dot]" using h by auto
  show "s \<noteq> [dot, dot]" using h by auto
  show "\<not> isSpace (hd s)" using m [of "hd s"] ne by (simp add: allowedDirChar_facts(3))
  show "\<not> isSpace (last s)" using m [of "last s"] ne by (simp add: allowedDirChar_facts(3))
  show "slash \<notin> set s" using m allowedDirChar_facts(4) by blast
  show "backslash \<notin> set s" using m allowedDirChar_facts(5) by blast
  show "list_all (\<lambda>c. c < 128) s" using m by (simp add: list_all_iff allowedDirChar_facts(1))
qed

lemma sanitizeParts_uncut:
  "list_all (\<lambda>p. length (sanitizeSegment nfd p) \<le> 128) parts
   \<Longrightarrow> \<forall>s\<in>set (sanitizeParts nfd parts). dirNormal s \<and> length s \<le> 128"
proof (induction parts)
  case Nil
  show ?case by simp
next
  case (Cons p parts)
  have ih: "\<forall>s\<in>set (sanitizeParts nfd parts). dirNormal s \<and> length s \<le> 128"
    using Cons by simp
  have len: "length (sanitizeSegment nfd p) \<le> 128" using Cons.prems by simp
  show ?case
  proof (cases "sanitizeSegment nfd p = []")
    case True
    then show ?thesis using ih by simp
  next
    case False
    then have "dirNormal (sanitizeSegment nfd p)" using sanitizeSegment_normal [of nfd p] by simp
    then show ?thesis using ih len by (simp add: Let_def)
  qed
qed

lemma sanitizeParts_fixed:
  assumes "asciiFixed nfd"
  shows "\<forall>s\<in>set out. dirNormal s \<and> length s \<le> 128 \<Longrightarrow> sanitizeParts nfd out = out"
proof (induction out)
  case Nil
  show ?case by simp
next
  case (Cons s out)
  have n: "dirNormal s" and l: "length s \<le> 128" using Cons.prems by simp_all
  have f: "sanitizeSegment nfd s = s" using assms n by (rule sanitizeSegment_fixed)
  have "sanitizeParts nfd out = out" using Cons by simp
  then show ?case using f l dirNormal_facts(1,2,3) [OF n] by (simp add: Let_def)
qed

text \<open>
  Where the first pass cuts nothing, the result of \<open>sanitizePathDir\<close> is a fixed
  point: its segments are in normal form and the second pass leaves them alone.
\<close>

lemma sanitizePathDir_idempotent_below_caps:
  assumes fx: "asciiFixed nfd" and w: "withinCaps nfd x"
  shows "sanitizePathDir nfd (sanitizePathDir nfd x) = sanitizePathDir nfd x"
proof -
  define out where "out = sanitizeParts nfd (partsOf nfd x)"
  define z where "z = join_with slash out"
  have e: "nfd [] = []" using fx by (simp add: asciiFixed_def)
  have empty: "sanitizePathDir nfd [] = []"
    by (simp add: sanitizePathDir_def e trim_def backslashToSlash_def)
  have len: "length z \<le> 512" using w by (simp add: withinCaps_def out_def z_def)
  have n: "\<forall>s\<in>set out. dirNormal s \<and> length s \<le> 128"
    unfolding out_def using w by (intro sanitizeParts_uncut) (simp add: withinCaps_def)
  have y: "sanitizePathDir nfd x = (if backslashToSlash (trim (nfd x)) = [] then [] else z)"
    using len by (simp add: sanitizePathDir_def Let_def z_def out_def partsOf_def)
  show ?thesis
  proof (cases "backslashToSlash (trim (nfd x)) = [] \<or> out = []")
    case True
    then have "sanitizePathDir nfd x = []" using y by (auto simp: z_def)
    then show ?thesis using empty by simp
  next
    case False
    then have one: "out \<noteq> []" and yz: "sanitizePathDir nfd x = z" using y by simp_all
    have hp: "hd out \<in> set out" and lp: "last out \<in> set out" using one by simp_all
    have hn: "dirNormal (hd out)" and ln: "dirNormal (last out)" using n hp lp by blast+
    have hne: "hd out \<noteq> []" and lne: "last out \<noteq> []"
      using hn ln by (simp_all add: dirNormal_facts(1))
    have zne: "z \<noteq> []" unfolding z_def using one hne by (rule join_with_nonempty)
    have "hd z = hd (hd out)" unfolding z_def using one hne by (rule join_with_hd)
    then have h: "\<not> isSpace (hd z)" using dirNormal_facts(4) [OF hn] by simp
    have "last z = last (last out)" unfolding z_def using one lne by (rule join_with_last)
    then have l: "\<not> isSpace (last z)" using dirNormal_facts(5) [OF ln] by simp
    have ascii: "c < 128 \<and> c \<noteq> backslash" if "c \<in> set z" for c
    proof -
      from that join_with_set [of slash out]
      consider "c = slash" | s where "s \<in> set out" "c \<in> set s" unfolding z_def by auto
      then show ?thesis
      proof cases
        case 1 then show ?thesis by (simp add: slash_def backslash_def)
      next
        case 2
        then have "dirNormal s" using n by blast
        from dirNormal_facts(7,8) [OF this] 2 show ?thesis by (auto simp: list_all_iff)
      qed
    qed
    have "list_all (\<lambda>c. c < 128) z" using ascii by (simp add: list_all_iff)
    then have a: "nfd z = z" using fx by (simp add: asciiFixed_def)
    have t: "trim z = z" using zne h l by (rule trim_keep)
    have "\<forall>c\<in>set z. c \<noteq> backslash" using ascii by blast
    then have b: "backslashToSlash z = z"
      unfolding backslashToSlash_def by (induction z) simp_all
    have free: "\<forall>s\<in>set out. slash \<notin> set s" using n dirNormal_facts(6) by blast
    have sp: "split_on slash z = out" unfolding z_def using one free by (rule split_join)
    have m: "map trim out = out"
    proof (intro map_idI)
      fix s assume "s \<in> set out"
      then have d: "dirNormal s" using n by blast
      show "trim s = s" using dirNormal_facts(1,4,5) [OF d] by (rule trim_keep)
    qed
    have f: "filter (\<lambda>p. p \<noteq> []) out = out"
      using n dirNormal_facts(1) by (intro filter_True) blast
    have s: "sanitizeParts nfd out = out" using n by (rule sanitizeParts_fixed [OF fx])
    have "sanitizePathDir nfd z = z"
      using zne len by (simp add: sanitizePathDir_def Let_def a t b sp m f s z_def [symmetric])
    then show ?thesis unfolding yz .
  qed
qed

lemma sanitizePathDir_example:
  "withinCaps latin1Nfd (js ''my docs/a'')
   \<and> sanitizePathDir latin1Nfd (js ''my docs/a'') = js ''my-docs/a''"
proof -
  have n: "latin1Nfd [109, 121, 32, 100, 111, 99, 115, 47, 97] = [109, 121, 32, 100, 111, 99, 115, 47, 97]"
    "latin1Nfd [109, 121, 32, 100, 111, 99, 115] = [109, 121, 32, 100, 111, 99, 115]"
    "latin1Nfd [97] = [97]"
    by (simp_all add: latin1Nfd_ascii)
  show ?thesis
    by (simp add: withinCaps_def partsOf_def sanitize_defs char_defs js_def n Let_def)
qed

subsubsection \<open>sanitizePathDir at the segment cap\<close>

text \<open>
  C3. Both sanitizers are claimed idempotent on every input, also past the length
  caps. \<open>sanitizePathDir\<close> cuts a segment to 128 units after it has stripped the
  trailing hyphens, and does not strip again: the 129-unit segment of 127 \<open>a\<close>, a
  hyphen and \<open>b\<close> is cut to 127 \<open>a\<close> and a hyphen, and sanitizing that result
  once more removes the hyphen. (\<open>sanitizeAdminFolderName\<close> trims again after its
  cut.)
\<close>

theorem sanitizePathDir_cap_breaks_idempotence:
  assumes "asciiFixed nfd"
  shows "sanitizePathDir nfd longSegment = cutSegment
         \<and> sanitizePathDir nfd (sanitizePathDir nfd longSegment) = replicate 127 97
         \<and> sanitizePathDir nfd (sanitizePathDir nfd longSegment) \<noteq> sanitizePathDir nfd longSegment"
proof -
  have l: "sanitizeParts nfd [longSegment] = [cutSegment]"
    using sanitizeSegment_long [OF assms]
    by (simp add: Let_def) (simp add: longSegment_def cutSegment_def dot_def)
  have r: "replicate 127 (97::nat) \<noteq> []" "replicate 127 (97::nat) \<noteq> [dot]"
    "replicate 127 (97::nat) \<noteq> [dot, dot]"
    using length_replicate [of 127 "97::nat"] by (auto simp del: length_replicate)
  have c: "sanitizeParts nfd [cutSegment] = [replicate 127 97]"
    using sanitizeSegment_cut [OF assms] r by (simp add: Let_def)
  have 1: "sanitizePathDir nfd longSegment = cutSegment"
    using sanitizePathDir_single [OF assms longSegment_ascii, unfolded l]
    by (simp add: longSegment_def char_facts hd_append)
  have 2: "sanitizePathDir nfd cutSegment = replicate 127 97"
    using sanitizePathDir_single [OF assms cutSegment_ascii, unfolded c]
    by (simp add: cutSegment_def char_facts hd_append)
  have 3: "replicate 127 (97::nat) \<noteq> cutSegment"
  proof
    assume "replicate 127 (97::nat) = cutSegment"
    then have "length (replicate 127 (97::nat)) = length cutSegment" by simp
    then show False by (simp add: cutSegment_def)
  qed
  show ?thesis using 1 2 3 by simp
qed

theorem sanitizePathDir_cap_breaks_idempotence_witness:
  "sanitizePathDir latin1Nfd (sanitizePathDir latin1Nfd longSegment)
     \<noteq> sanitizePathDir latin1Nfd longSegment"
  using sanitizePathDir_cap_breaks_idempotence [OF asciiFixed_latin1Nfd] by blast

subsection \<open>Upload\<close>

lemma sanitize_cafe:
  assumes "cafeNormalizer nfd"
  shows "sanitizePathDir nfd cafeHint = js ''Cafe/Arvore''"
proof -
  have n: "nfd [67, 97, 102, 233, 47, 195, 114, 118, 111, 114, 101]
             = [67, 97, 102, 101, 769, 47, 65, 771, 114, 118, 111, 114, 101]"
    "nfd [67, 97, 102, 101, 769] = [67, 97, 102, 101, 769]"
    "nfd [65, 771, 114, 118, 111, 114, 101] = [65, 771, 114, 118, 111, 114, 101]"
    using assms by (simp_all add: cafeNormalizer_def cafeHint_def cafeDecomposed_def js_def)
  show ?thesis
    by (simp add: sanitize_defs char_defs cafeHint_def js_def n Let_def)
qed



lemma join_cafe: "join [[], js ''Cafe/Arvore'', js ''abc123'' @ js ''.png''] = js ''Cafe/Arvore/abc123.png''"
  by (simp add: js_def endsWith_def slash_def)

lemma url_cafe: "slash # UPLOADS_FOLDER_NAME @ slash # js ''Cafe/Arvore/abc123.png'' = js ''/uploads/Cafe/Arvore/abc123.png''"
    by (simp add: js_def slash_def UPLOADS_FOLDER_NAME_def)

lemma upload_plan:
  assumes nfd: "cafeNormalizer nfd"
    and env: "prefix env = []" "baseUrl env = None" "\<not> renameToUuid env"
    and f: "hash f = js ''abc123''" "ext f = Some (js ''.png'')" "path f = Some cafeHint"
  shows "upload nfd uuid env fs f =
           (case ensureDir fs (path_dirname (path_join [uploadPath env, js ''Cafe/Arvore/abc123.png''])) of
              Inl e \<Rightarrow> Inl e
            | Inr fs1 \<Rightarrow>
                  (case (case stream f of
                           Some content \<Rightarrow> writeFile fs1 (path_join [uploadPath env, js ''Cafe/Arvore/abc123.png'']) content
                         | None \<Rightarrow>
                             (case buffer f of
                                Some content \<Rightarrow> writeFile fs1 (path_join [uploadPath env, js ''Cafe/Arvore/abc123.png'']) content
                              | None \<Rightarrow> Inl MissingStreamOrBuffer)) of
                     Inl e \<Rightarrow> Inl e
                   | Inr fs2 \<Rightarrow> Inr (fs2, f\<lparr>url := Some (js ''/uploads/Cafe/Arvore/abc123.png'')\<rparr>)))"
proof -
  have ne: "cafeHint \<noteq> []" by (simp add: cafeHint_def js_def)
  have dyn: "sanitizePathDir nfd cafeHint \<noteq> []"
    unfolding sanitize_cafe [OF nfd] by (simp add: js_def)
  have fn: "orEmpty (path f) = cafeHint" "orEmpty (ext f) = js ''.png''"
    by (simp_all add: orEmpty_def f)
  have r: "renameToUuid env = False" "(js ''Cafe/Arvore'' = []) = False"
    using env by (simp_all add: js_def)
  show ?thesis
    unfolding upload_def Let_def fn env(1,2) f(1)
    using ne
    by (simp only: r if_True if_False sanitize_cafe [OF nfd] join_cafe url_cafe option.case simp_thms)
qed

text \<open>
  C6. With an empty prefix, no \<open>baseUrl\<close> and non-guessable naming off, uploading a
  file with hash \<open>abc123\<close>, extension \<open>.png\<close>, directory hint \<open>Cafe/Arvore\<close>
  written with its accents, and a stream or buffer \<open>c\<close>, creates the directories of
  \<open>uploadPath/Cafe/Arvore\<close>, writes \<open>c\<close> to \<open>uploadPath/Cafe/Arvore/abc123.png\<close>
  and sets the url to \<open>/uploads/Cafe/Arvore/abc123.png\<close>; it fails only where one of
  the two file-system steps does.
\<close>

theorem upload_cafe:
  assumes nfd: "cafeNormalizer nfd"
    and env: "prefix env = []" "baseUrl env = None" "\<not> renameToUuid env"
    and f: "hash f = js ''abc123''" "ext f = Some (js ''.png'')" "path f = Some cafeHint"
    and content: "stream f = Some c \<or> (stream f = None \<and> buffer f = Some c)"
  shows "upload nfd uuid env fs f =
           (case ensureDir fs (path_dirname (path_join [uploadPath env, js ''Cafe/Arvore/abc123.png''])) of
              Inl e \<Rightarrow> Inl e
            | Inr fs1 \<Rightarrow>
                (case writeFile fs1 (path_join [uploadPath env, js ''Cafe/Arvore/abc123.png'']) c of
                   Inl e \<Rightarrow> Inl e
                 | Inr fs2 \<Rightarrow> Inr (fs2, f\<lparr>url := Some (js ''/uploads/Cafe/Arvore/abc123.png'')\<rparr>)))
         \<and> (\<forall>fs' f'. upload nfd uuid env fs f = Inr (fs', f') \<longrightarrow>
                map_of fs' (path_join [uploadPath env, js ''Cafe/Arvore/abc123.png'']) = Some (RegularFile c)
                \<and> url f' = Some (js ''/uploads/Cafe/Arvore/abc123.png''))"
proof -
  define target where "target = path_join [uploadPath env, js ''Cafe/Arvore/abc123.png'']"
  have w: "(case stream f of
              Some content \<Rightarrow> writeFile fs1 target content
            | None \<Rightarrow> (case buffer f of
                         Some content \<Rightarrow> writeFile fs1 target content
                       | None \<Rightarrow> Inl MissingStreamOrBuffer)) = writeFile fs1 target c" for fs1
    using content by auto
  have eq: "upload nfd uuid env fs f =
           (case ensureDir fs (path_dirname target) of
              Inl e \<Rightarrow> Inl e
            | Inr fs1 \<Rightarrow>
                (case writeFile fs1 target c of
                   Inl e \<Rightarrow> Inl e
                 | Inr fs2 \<Rightarrow> Inr (fs2, f\<lparr>url := Some (js ''/uploads/Cafe/Arvore/abc123.png'')\<rparr>)))"
    unfolding upload_plan [OF nfd env f] target_def [symmetric] w ..
  have st: "map_of fs' target = Some (RegularFile c) \<and> url f' = Some (js ''/uploads/Cafe/Arvore/abc123.png'')"
    if "upload nfd uuid env fs f = Inr (fs', f')" for fs' f'
    using that unfolding eq
    by (auto simp: writeFile_def split: sum.splits if_splits)
  show ?thesis using eq st unfolding target_def by blast
qed

lemma cafeNormalizer_latin1Nfd: "cafeNormalizer latin1Nfd"
  by (simp add: cafeNormalizer_def cafeHint_def cafeDecomposed_def latin1Nfd_def latin1Table_def js_def)

lemma example_target: "path_join [js ''/srv/app/public/uploads'', js ''Cafe/Arvore/abc123.png'']
   = js ''/srv/app/public/uploads/Cafe/Arvore/abc123.png''"
  by (simp add: path_join_def path_normalize_def normalizeString_def js_def slash_def dot_def)

lemma example_target_dir: "path_dirname (js ''/srv/app/public/uploads/Cafe/Arvore/abc123.png'')
   = js ''/srv/app/public/uploads/Cafe/Arvore''"
  by (simp add: path_dirname_def stripTrailing_def js_def slash_def)

lemma example_dirChain: "dirChain (js ''/srv/app/public/uploads/Cafe/Arvore'')
  = [js ''/srv'', js ''/srv/app'', js ''/srv/app/public'', js ''/srv/app/public/uploads'',
     js ''/srv/app/public/uploads/Cafe'', js ''/srv/app/public/uploads/Cafe/Arvore'']"
  by (simp add: dirChain_def segmentsOf_def js_def slash_def upt_rec)


lemma example_ensureDir: "ensureDir emptyStore (js ''/srv/app/public/uploads/Cafe/Arvore'')
  = Inr (emptyStore @ [(js ''/srv/app/public/uploads/Cafe'', Directory),
                       (js ''/srv/app/public/uploads/Cafe/Arvore'', Directory)])"
  unfolding ensureDir_def example_dirChain
  by (simp add: emptyStore_def isFile_def existsSync_def js_def slash_def)

lemma example_writeFile: "writeFile (emptyStore @ [(js ''/srv/app/public/uploads/Cafe'', Directory),
                       (js ''/srv/app/public/uploads/Cafe/Arvore'', Directory)])
     (js ''/srv/app/public/uploads/Cafe/Arvore/abc123.png'') [137, 80, 78, 71]
  = Inr ((js ''/srv/app/public/uploads/Cafe/Arvore/abc123.png'', RegularFile [137, 80, 78, 71])
          # emptyStore @ [(js ''/srv/app/public/uploads/Cafe'', Directory),
                       (js ''/srv/app/public/uploads/Cafe/Arvore'', Directory)])"
  unfolding writeFile_def example_target_dir
  by (simp add: emptyStore_def isDirectory_def removeEntry_def js_def slash_def)

theorem upload_cafe_witness:
  "upload latin1Nfd [] exampleEnv emptyStore cafeFile
     = Inr ((js ''/srv/app/public/uploads/Cafe/Arvore/abc123.png'', RegularFile [137, 80, 78, 71])
              # emptyStore @ [(js ''/srv/app/public/uploads/Cafe'', Directory),
                             (js ''/srv/app/public/uploads/Cafe/Arvore'', Directory)],
            cafeFile\<lparr>url := Some (js ''/uploads/Cafe/Arvore/abc123.png'')\<rparr>)"
proof -
  have e: "prefix exampleEnv = []" "baseUrl exampleEnv = None" "\<not> renameToUuid exampleEnv"
    "uploadPath exampleEnv = js ''/srv/app/public/uploads''"
    by (simp_all add: exampleEnv_def)
  have f: "hash cafeFile = js ''abc123''" "ext cafeFile = Some (js ''.png'')" "path cafeFile = Some cafeHint"
    by (simp_all add: cafeFile_def)
  have c: "stream cafeFile = Some [137, 80, 78, 71] \<or> (stream cafeFile = None \<and> buffer cafeFile = Some [137, 80, 78, 71])"
    by (simp add: cafeFile_def)
  show ?thesis
    using upload_cafe [OF cafeNormalizer_latin1Nfd e(1-3) f c, of "[]" emptyStore, THEN conjunct1]
    unfolding e(4) example_target example_target_dir example_ensureDir by (simp add: example_writeFile)
qed

subsection \<open>The private-access gate\<close>

lemma verify_fresh:
  "secret \<noteq> [] \<Longrightarrow>
     verifyPrivateUrlToken hmac secret p e (signPrivateUrl hmac secret p e) = Inr True"
  by (simp add: verify_eq sign_nonempty decode_sign timingSafeEqual_def)

lemma signedUrlCheck_fresh:
  "secret \<noteq> [] \<Longrightarrow>
     signedUrlCheck hmac secret p (Some (signPrivateUrl hmac secret p e))
       (Some (numberToString e)) now = Inr (now < e * 1000)"
  by (simp add: signedUrlCheck_def parseInt10_numberToString Let_def sign_nonempty verify_fresh)

text \<open>
  C9. For a GET request under the private prefix that names an existing regular file,
  with the signing secret configured: when the bearer token is rejected by both
  verifiers, by a negative answer or by an exception, both bearer checks count as
  failed and a signed-URL token for the request path whose expiry is still ahead lets
  the request through to the file; when the request has no authorization header and
  no \<open>token\<close> and \<open>expires\<close> parameters, the answer is status 403.
\<close>

theorem gate_decisions:
  assumes on: "privateEnable env" "privateFolderNorm env \<noteq> []" "privateSecret env \<noteq> []"
    and get: "ctxMethod req = js ''GET''"
    and under: "startsWith (ctxPath req) (privateUrlPrefix env)"
    and resolved: "safeResolveUnderRoot (processCwd env) (uploadPath env)
        (backslashToSlash (dropWhile (\<lambda>c. c = slash) (drop (length uploadsPrefix) (ctxPath req))))
          = Some absPath"
    and reg: "isFile fs absPath"
  shows "(bearerTokenOf (authorization req) \<noteq> []
          \<and> adminDecode v = Some dec
          \<and> (dec (bearerTokenOf (authorization req)) = Inr False
               \<or> (\<exists>e. dec (bearerTokenOf (authorization req)) = Inl e))
          \<and> jwtVerify v = Some ver
          \<and> (ver (bearerTokenOf (authorization req)) = Inr None
               \<or> (\<exists>e. ver (bearerTokenOf (authorization req)) = Inl e))
          \<and> queryToken req = Some (signPrivateUrl hmac (privateSecret env) (ctxPath req) expiry)
          \<and> queryExpires req = Some (numberToString expiry)
          \<and> now < expiry * 1000
          \<longrightarrow> \<not> adminAllows v (bearerTokenOf (authorization req))
              \<and> \<not> ownerAllows v d (bearerTokenOf (authorization req))
              \<and> privateGate hmac env v fs now req = Inr (Body absPath))
       \<and> (authorization req = None \<and> queryToken req = None \<and> queryExpires req = None
          \<longrightarrow> privateGate hmac env v fs now req = Inr (Status 403))"
proof -
  have ex: "existsSync fs absPath"
    using reg by (auto simp: isFile_def existsSync_def split: option.splits)
  have c: "(\<not> (privateEnable env \<and> privateFolderNorm env \<noteq> [])) = False"
    "(ctxMethod req \<noteq> js ''GET'' \<or> \<not> startsWith (ctxPath req) (privateUrlPrefix env)) = False"
    "(\<not> existsSync fs absPath \<or> \<not> isFile fs absPath) = False"
    using on get under reg ex by simp_all
  have gate: "privateGate hmac env v fs now req =
      (let pathSegments = filter (\<lambda>s. s \<noteq> []) (split_on slash (drop (length uploadsPrefix) (ctxPath req)));
           documentIdInPath = (if 1 < length pathSegments then pathSegments ! 1 else []);
           bearerToken = bearerTokenOf (authorization req);
           allowed = (bearerToken \<noteq> []
                      \<and> (adminAllows v bearerToken \<or> ownerAllows v documentIdInPath bearerToken))
       in if allowed then Inr (Body absPath)
          else (case signedUrlCheck hmac (privateSecret env) (ctxPath req) (queryToken req) (queryExpires req) now of
                  Inl e \<Rightarrow> Inl e
                | Inr ok \<Rightarrow> if ok then Inr (Body absPath) else Inr (Status 403)))"
    unfolding privateGate_def
    by (simp only: c resolved if_False Let_def option.case)
  have a: "privateGate hmac env v fs now req = Inr (Body absPath)"
    if q: "queryToken req = Some (signPrivateUrl hmac (privateSecret env) (ctxPath req) expiry)"
        "queryExpires req = Some (numberToString expiry)" "now < expiry * 1000"
  proof -
    have "signedUrlCheck hmac (privateSecret env) (ctxPath req) (queryToken req) (queryExpires req) now = Inr True"
      unfolding q(1,2)
      using signedUrlCheck_fresh [OF on(3), of hmac "ctxPath req" expiry now] q(3)
      by simp
    then show ?thesis unfolding gate Let_def by simp
  qed
  have b: "privateGate hmac env v fs now req = Inr (Status 403)"
    if "authorization req = None" "queryToken req = None" "queryExpires req = None"
    unfolding gate Let_def using that on(3)
    by (simp add: bearerTokenOf_def signedUrlCheck_def)
  have r: "\<not> adminAllows v t \<and> \<not> ownerAllows v d t"
    if "adminDecode v = Some dec" "dec t = Inr False \<or> (\<exists>e. dec t = Inl e)"
      "jwtVerify v = Some ver" "ver t = Inr None \<or> (\<exists>e. ver t = Inl e)" for t
    using that by (auto simp: adminAllows_def ownerAllows_def)
  show ?thesis using a b r by blast
qed

lemma example_prefix: "privateUrlPrefix exampleEnv = js ''/uploads/private/''"
  by (simp add: privateUrlPrefix_def uploadsPrefix_def exampleEnv_def UPLOADS_FOLDER_NAME_def js_def slash_def)

lemma example_object:
  "backslashToSlash (dropWhile (\<lambda>c. c = slash) (drop (length uploadsPrefix) examplePath))
     = js ''private/7/abc123.png''"
  by (simp add: uploadsPrefix_def UPLOADS_FOLDER_NAME_def examplePath_def backslashToSlash_def
      js_def slash_def backslash_def)

lemma example_private_resolved:
  "safeResolveUnderRoot (js ''/srv/app'') (js ''/srv/app/public/uploads'') (js ''private/7/abc123.png'')
     = Some (js ''/srv/app/public/uploads/private/7/abc123.png'')"
  by (simp add: safeResolveUnderRoot_def path_resolve_def normalizeString_def js_def slash_def dot_def)

lemma example_private_file: "isFile privateStore (js ''/srv/app/public/uploads/private/7/abc123.png'')"
  by (simp add: isFile_def privateStore_def emptyStore_def js_def)

lemma example_bearer: "bearerTokenOf (Some (js ''Bearer not-a-token'')) = js ''not-a-token''"
  by (simp add: bearerTokenOf_def toLowerAscii_def trim_def isSpace_def js_def)

theorem gate_decisions_witness:
  "privateGate lengthMac exampleEnv throwingVerifiers privateStore 1730000000000 exampleRequest
     = Inr (Body (js ''/srv/app/public/uploads/private/7/abc123.png''))
   \<and> privateGate lengthMac exampleEnv throwingVerifiers privateStore 1730000000000
       (exampleRequest\<lparr>authorization := None, queryToken := None, queryExpires := None\<rparr>)
     = Inr (Status 403)"
proof -
  have env: "privateEnable exampleEnv" "privateFolderNorm exampleEnv \<noteq> []" "privateSecret exampleEnv \<noteq> []"
    "processCwd exampleEnv = js ''/srv/app''" "uploadPath exampleEnv = js ''/srv/app/public/uploads''"
    "privateSecret exampleEnv = js ''s3cret''"
    by (simp_all add: exampleEnv_def js_def)
  have n: "numberToString 1730000060 = js ''1730000060''"
    by (simp add: numberToString_def digitsOf.simps js_def)
  have req: "ctxMethod exampleRequest = js ''GET''" "ctxPath exampleRequest = examplePath"
    "authorization exampleRequest = Some (js ''Bearer not-a-token'')"
    "queryToken exampleRequest = Some (signPrivateUrl lengthMac (privateSecret exampleEnv) examplePath 1730000060)"
    "queryExpires exampleRequest = Some (numberToString 1730000060)"
    unfolding n by (simp_all add: exampleRequest_def exampleToken_def env(6))
  have under: "startsWith examplePath (privateUrlPrefix exampleEnv)"
    unfolding example_prefix by (simp add: examplePath_def js_def)
  have res: "safeResolveUnderRoot (processCwd exampleEnv) (uploadPath exampleEnv)
        (backslashToSlash (dropWhile (\<lambda>c. c = slash) (drop (length uploadsPrefix) examplePath)))
          = Some (js ''/srv/app/public/uploads/private/7/abc123.png'')"
    unfolding env(4,5) example_object by (rule example_private_resolved)
  have v: "adminDecode throwingVerifiers = Some (\<lambda>t. Inl VerifierFault)"
    "jwtVerify throwingVerifiers = Some (\<lambda>t. Inl VerifierFault)"
    by (simp_all add: throwingVerifiers_def)
  have tok: "bearerTokenOf (authorization exampleRequest) \<noteq> []"
    unfolding req(3) example_bearer by (simp add: js_def)
  have 1: "privateGate lengthMac exampleEnv throwingVerifiers privateStore 1730000000000 exampleRequest
     = Inr (Body (js ''/srv/app/public/uploads/private/7/abc123.png''))"
    using gate_decisions [of exampleEnv exampleRequest "js ''/srv/app/public/uploads/private/7/abc123.png''"
        privateStore throwingVerifiers "\<lambda>t. Inl VerifierFault" "\<lambda>t. Inl VerifierFault"
        lengthMac 1730000060 1730000000000,
        OF env(1-3) req(1) _ _ example_private_file, THEN conjunct1]
      under res v tok req
    by simp
  define req2 where "req2 = exampleRequest\<lparr>authorization := None, queryToken := None, queryExpires := None\<rparr>"
  have req2: "ctxMethod req2 = js ''GET''" "ctxPath req2 = examplePath"
    "authorization req2 = None" "queryToken req2 = None" "queryExpires req2 = None"
    by (simp_all add: req2_def exampleRequest_def)
  have 2: "privateGate lengthMac exampleEnv throwingVerifiers privateStore 1730000000000 req2 = Inr (Status 403)"
    using gate_decisions [of exampleEnv req2 "js ''/srv/app/public/uploads/private/7/abc123.png''"
        privateStore throwingVerifiers _ _ lengthMac _ 1730000000000,
        OF env(1-3) req2(1) _ _ example_private_file, THEN conjunct2]
      under res req2
    by simp
  show ?thesis using 1 2 unfolding req2_def by simp
qed

text \<open>
  The exception of \<open>verifyPrivateUrlToken\<close> on a token of the wrong length is not
  caught in the gate either: the request ends with it.
\<close>

lemma gate_short_token_throws:
  "privateGate lengthMac exampleEnv throwingVerifiers privateStore 1730000000000
     (exampleRequest\<lparr>queryToken := Some (js ''abc'')\<rparr>)
   = Inl ERR_CRYPTO_TIMING_SAFE_EQUAL_LENGTH"
proof -
  define req where "req = exampleRequest\<lparr>queryToken := Some (js ''abc'')\<rparr>"
  have r: "ctxMethod req = js ''GET''" "ctxPath req = examplePath"
    "authorization req = Some (js ''Bearer not-a-token'')"
    "queryToken req = Some (js ''abc'')" "queryExpires req = Some (js ''1730000060'')"
    by (simp_all add: req_def exampleRequest_def)
  have env: "privateEnable exampleEnv" "privateFolderNorm exampleEnv \<noteq> []"
    "processCwd exampleEnv = js ''/srv/app''" "uploadPath exampleEnv = js ''/srv/app/public/uploads''"
    "privateSecret exampleEnv = js ''s3cret''"
    by (simp_all add: exampleEnv_def js_def)
  have under: "startsWith examplePath (privateUrlPrefix exampleEnv)"
    unfolding example_prefix by (simp add: examplePath_def js_def)
  have x: "existsSync privateStore (js ''/srv/app/public/uploads/private/7/abc123.png'')"
    using example_private_file by (auto simp: isFile_def existsSync_def split: option.splits)
  have c: "(\<not> (privateEnable exampleEnv \<and> privateFolderNorm exampleEnv \<noteq> [])) = False"
    "(ctxMethod req \<noteq> js ''GET'' \<or> \<not> startsWith (ctxPath req) (privateUrlPrefix exampleEnv)) = False"
    "(\<not> existsSync privateStore (js ''/srv/app/public/uploads/private/7/abc123.png'')
       \<or> \<not> isFile privateStore (js ''/srv/app/public/uploads/private/7/abc123.png'')) = False"
    using env r under x example_private_file by simp_all
  have a: "\<not> adminAllows throwingVerifiers t" "\<not> ownerAllows throwingVerifiers d t" for t d
    by (simp_all add: adminAllows_def ownerAllows_def throwingVerifiers_def)
  have p: "parseInt10 (js ''1730000060'') = Some 1730000060"
    using parseInt10_numberToString [of 1730000060]
    by (simp add: numberToString_def digitsOf.simps js_def)
  have s: "js ''s3cret'' \<noteq> []" "js ''abc'' \<noteq> []" by (simp_all add: js_def)
  have d: "length (base64urlDecode (js ''abc'')) = 2"
    by (simp add: base64urlDecode_def js_def List.map_filter_def unbase64_def)
  have v: "verifyPrivateUrlToken lengthMac (js ''s3cret'') examplePath 1730000060 (js ''abc'')
             = Inl ERR_CRYPTO_TIMING_SAFE_EQUAL_LENGTH"
    unfolding verify_eq [OF s] timingSafeEqual_def
    by (simp only: d length_digestBytes) simp
  have h: "signedUrlCheck lengthMac (js ''s3cret'') examplePath (Some (js ''abc''))
             (Some (js ''1730000060'')) 1730000000000 = Inl ERR_CRYPTO_TIMING_SAFE_EQUAL_LENGTH"
    using s by (simp add: signedUrlCheck_def p v)
  have "privateGate lengthMac exampleEnv throwingVerifiers privateStore 1730000000000 req
          = Inl ERR_CRYPTO_TIMING_SAFE_EQUAL_LENGTH"
    unfolding privateGate_def
    using under
    by (simp only: c env(3,4) r example_object example_private_resolved if_False Let_def
        option.case a simp_thms env(5) h sum.case)
  then show ?thesis by (simp add: req_def)
qed

subsection \<open>Metadata-folder cleanup\<close>

lemma walk_not_eligible: "\<not> eligible db h i \<Longrightarrow> walkUpFolders db h i = (db, [])"
  by (subst walkUpFolders.simps)
     (auto simp: eligible_def findFolderById_def countChildFolders_def countOtherFiles_def
        split: option.splits sum.splits if_splits)

lemma walk_query_fault:
  "throws db (FolderById i) \<or> throws db (CountChildFolders i) \<or> (\<forall>p. throws db (CountOtherFiles p h))
     \<Longrightarrow> walkUpFolders db h i = (db, [])"
  by (subst walkUpFolders.simps)
     (auto simp: findFolderById_def countChildFolders_def countOtherFiles_def
        split: option.splits sum.splits if_splits)

lemma walk_eligible:
  assumes "eligible db h i" and "\<not> throws db (FolderById i)" "\<not> throws db (CountChildFolders i)"
    "\<forall>p. \<not> throws db (CountOtherFiles p h)"
  shows "walkUpFolders db h i =
           (if throws db (DeleteFolder i) then (db, [i])
            else case find (\<lambda>f. rowId f = i) (folderRows db) of
                   None \<Rightarrow> (db, [])
                 | Some f \<Rightarrow>
                     if \<not> truthyId (rowParent f) then (removeFolder db i, [i])
                     else (case walkUpFolders (removeFolder db i) h (the (rowParent f)) of
                             (db'', requested) \<Rightarrow> (db'', i # requested)))"
  using assms
  by (subst walkUpFolders.simps)
     (auto simp: eligible_def findFolderById_def countChildFolders_def countOtherFiles_def
        deleteFolderById_def split: option.splits sum.splits if_splits)

lemma walk_trace: "eligibleTrace db h (snd (walkUpFolders db h i))"
proof (induction db h i rule: walkUpFolders.induct)
  case (1 db h folderId)
  show ?case
  proof (cases "eligible db h folderId \<and> \<not> throws db (FolderById folderId)
      \<and> \<not> throws db (CountChildFolders folderId)
      \<and> (\<forall>f. find (\<lambda>f. rowId f = folderId) (folderRows db) = Some f \<longrightarrow> \<not> throws db (CountOtherFiles (rowPath f) h))")
    case False
    then have "walkUpFolders db h folderId = (db, [])"
      by (subst walkUpFolders.simps)
         (auto simp: eligible_def findFolderById_def countChildFolders_def countOtherFiles_def
            split: option.splits sum.splits if_splits)
    then show ?thesis by simp
  next
    case True
    then obtain f where f: "find (\<lambda>f. rowId f = folderId) (folderRows db) = Some f"
      by (auto simp: eligible_def split: option.splits)
    have q: "findFolderById db folderId = Inr (Some f)" "countChildFolders db folderId = Inr 0"
      "countOtherFiles db (rowPath f) h = Inr 0"
      using True f by (auto simp: eligible_def findFolderById_def countChildFolders_def countOtherFiles_def)
    show ?thesis
    proof (cases "throws db (DeleteFolder folderId)")
      case t: True
      then have "walkUpFolders db h folderId = (db, [folderId])"
        by (subst walkUpFolders.simps) (simp add: q deleteFolderById_def)
      then show ?thesis using True by simp
    next
      case nt: False
      then have d: "deleteFolderById db folderId = Inr (removeFolder db folderId)"
        by (simp add: deleteFolderById_def)
      show ?thesis
      proof (cases "truthyId (rowParent f)")
        case np: False
        then have "walkUpFolders db h folderId = (removeFolder db folderId, [folderId])"
          by (subst walkUpFolders.simps) (simp add: q d)
        then show ?thesis using True by simp
      next
        case p: True
        have ih: "eligibleTrace (removeFolder db folderId) h
                    (snd (walkUpFolders (removeFolder db folderId) h (the (rowParent f))))"
          using "1.IH" [OF q(1) refl q(2) _ q(3) _ d] p by simp
        have "walkUpFolders db h folderId =
                (case walkUpFolders (removeFolder db folderId) h (the (rowParent f)) of
                   (db'', requested) \<Rightarrow> (db'', folderId # requested))"
          by (subst walkUpFolders.simps) (simp add: q d p)
        then show ?thesis using True ih by (simp split: prod.splits)
      qed
    qed
  qed
qed

text \<open>
  C8. Every folder whose deletion the cleanup requests has, at that moment, no child
  folder and no file under its path other than the file being deleted. The walk
  requests nothing at a folder that fails this, and goes no further; a query that
  throws stops it with nothing requested; a delete that throws stops it after that
  one request; a folder without a parent is the last one requested. The cleanup
  returns a database and a list of requests, never an exception.
\<close>

theorem folder_cleanup_walk:
  "eligibleTrace db (hash file) (snd (maybeCleanupEmptyAdminFolders env db file))
   \<and> eligibleTrace db h (snd (walkUpFolders db h i))
   \<and> (\<not> eligible db h i \<longrightarrow> walkUpFolders db h i = (db, []))
   \<and> (throws db (FolderById i) \<or> throws db (CountChildFolders i) \<or> (\<forall>p. throws db (CountOtherFiles p h))
        \<longrightarrow> walkUpFolders db h i = (db, []))
   \<and> (eligible db h i \<and> \<not> throws db (FolderById i) \<and> \<not> throws db (CountChildFolders i)
        \<and> (\<forall>p. \<not> throws db (CountOtherFiles p h))
        \<longrightarrow> (throws db (DeleteFolder i) \<longrightarrow> walkUpFolders db h i = (db, [i]))
            \<and> (\<not> throws db (DeleteFolder i) \<and> find (\<lambda>f. rowId f = i) (folderRows db) = Some f
                 \<and> \<not> truthyId (rowParent f)
                 \<longrightarrow> walkUpFolders db h i = (removeFolder db i, [i])))"
proof -
  have 1: "eligibleTrace db (hash file) (snd (maybeCleanupEmptyAdminFolders env db file))"
    by (simp add: maybeCleanupEmptyAdminFolders_def Let_def walk_trace)
  have 2: "eligible db h i \<and> \<not> throws db (FolderById i) \<and> \<not> throws db (CountChildFolders i)
        \<and> (\<forall>p. \<not> throws db (CountOtherFiles p h))
        \<longrightarrow> (throws db (DeleteFolder i) \<longrightarrow> walkUpFolders db h i = (db, [i]))
            \<and> (\<not> throws db (DeleteFolder i) \<and> find (\<lambda>f. rowId f = i) (folderRows db) = Some f
                 \<and> \<not> truthyId (rowParent f)
                 \<longrightarrow> walkUpFolders db h i = (removeFolder db i, [i]))"
    using walk_eligible [of db h i] by auto
  show ?thesis
    using 1 2 walk_trace [of db h i] walk_not_eligible [of db h i] walk_query_fault [of db i h]
    by blast
qed

lemma tree_walk:
  "maybeCleanupEmptyAdminFolders (exampleEnv\<lparr>cleanupAdminFolders := True\<rparr>) treeDb leafFile
     = (treeDb\<lparr>folderRows := [\<lparr> rowId = 1, rowPath = js ''/1'', rowParent = None \<rparr>]\<rparr>, [3, 2])"
  by (simp add: maybeCleanupEmptyAdminFolders_def resolveFolderId_def leafFile_def exampleFile_def
      truthyId_def walkUpFolders.simps findFolderById_def countChildFolders_def countOtherFiles_def
      deleteFolderById_def removeFolder_def treeDb_def treeFolders_def treeFiles_def js_def Let_def)

theorem folder_cleanup_walk_witness:
  "maybeCleanupEmptyAdminFolders (exampleEnv\<lparr>cleanupAdminFolders := True\<rparr>) treeDb leafFile
     = (treeDb\<lparr>folderRows := [\<lparr> rowId = 1, rowPath = js ''/1'', rowParent = None \<rparr>]\<rparr>, [3, 2])
   \<and> eligibleTrace treeDb (js ''abc123'') [3, 2]
   \<and> \<not> eligible (removeFolder (removeFolder treeDb 3) 2) (js ''abc123'') 1"
proof -
  have h: "hash leafFile = js ''abc123''" by (simp add: leafFile_def exampleFile_def)
  have t: "eligibleTrace treeDb (js ''abc123'') [3, 2]"
    using folder_cleanup_walk [of treeDb leafFile "exampleEnv\<lparr>cleanupAdminFolders := True\<rparr>", THEN conjunct1]
    unfolding tree_walk h by simp
  have n: "\<not> eligible (removeFolder (removeFolder treeDb 3) 2) (js ''abc123'') 1"
    by (simp add: eligible_def removeFolder_def treeDb_def treeFolders_def treeFiles_def js_def)
  show ?thesis using tree_walk t n by simp
qed

subsection \<open>Delete\<close>




lemma delete_directory_hit:
  "firstExisting env fs (objectPathsOf rt env file) = Some p \<Longrightarrow> map_of fs p = Some Directory
     \<Longrightarrow> delete rt env fs db file = Inl EISDIR"
  by (simp add: delete_def Let_def removeAndCleanup_def unlink_def)

text \<open>
  A candidate that misses is passed over, and the first candidate that exists as a
  regular file is removed.
\<close>

lemma delete_regular_file_hit:
  assumes "firstExisting env fs (objectPathsOf rt env file) = Some p"
    and "map_of fs p = Some (RegularFile content)"
  shows "delete rt env fs db file =
           Inr (Removed,
                if cleanupDirs env then cleanupEmptyDirs (processCwd env) (removeEntry fs p) p (uploadPath env)
                else removeEntry fs p,
                fst (maybeCleanupEmptyAdminFolders env db file))"
  using assms by (simp add: delete_def Let_def removeAndCleanup_def unlink_def)

lemma firstExisting_skips_absent:
  assumes "candidateMisses env fs objectPath"
  shows "firstExisting env fs (objectPath # rest) = firstExisting env fs rest"
  using assms by (auto simp: candidateMisses_def Let_def split: option.splits)


lemma extract_absent: "extractObjectPathFromUrl rt None marker base = None"
  by (simp add: extractObjectPathFromUrl_def getStringOrUndefined_def)

lemma custom_exts: "extCandidatesOf rt exampleEnv customFile = [[]]"
  by (simp add: extCandidatesOf_def customFile_def exampleFile_def extract_absent normalizeExt_def
      extFromMime_def getStringOrUndefined_def addIfTruthy_def extOfObject_def Let_def)

lemma custom_paths: "objectPathsOf rt exampleEnv customFile = [js ''custom'']"
  unfolding objectPathsOf_def Let_def custom_exts
  by (simp add: customFile_def exampleFile_def exampleEnv_def
      extract_absent orEmpty_def normalizeRelativeSlashPath_def trim_def backslashToSlash_def
      stripTrailing_def setAdd_def addIfTruthy_def addPathsForExt_def endsWith_def Let_def)

lemma custom_resolved:
  "safeResolveUnderRoot (js ''/srv/app'') (js ''/srv/app/public/uploads'') (js ''custom'')
     = Some (js ''/srv/app/public/uploads/custom'')"
  by (simp add: safeResolveUnderRoot_def path_resolve_def normalizeString_def js_def slash_def dot_def)

lemma custom_rel: "normalizeRelativeSlashPath (js ''custom'') = js ''custom''"
  by (simp add: normalizeRelativeSlashPath_def trim_def backslashToSlash_def stripTrailing_def
      isSpace_def js_def slash_def backslash_def)

lemma custom_first:
  "firstExisting exampleEnv customStore [js ''custom''] = Some (js ''/srv/app/public/uploads/custom'')"
proof -
  have e: "processCwd exampleEnv = js ''/srv/app''" "uploadPath exampleEnv = js ''/srv/app/public/uploads''"
    by (simp_all add: exampleEnv_def)
  have x: "existsSync customStore (js ''/srv/app/public/uploads/custom'')"
    by (simp add: existsSync_def customStore_def emptyStore_def js_def)
  have n: "js ''custom'' \<noteq> []" by (simp add: js_def)
  show ?thesis
    by (simp add: Let_def custom_rel e custom_resolved x n)
qed

text \<open>
  C4. The direct phase is claimed to skip a candidate that resolves to a directory and
  to go on. The code tests \<open>fs.existsSync\<close> only, so a directory counts as found:
  with a directory \<open>custom\<close> in the uploads root and a descriptor whose hash is
  \<open>custom\<close>, \<open>unlink\<close> fails with \<open>EISDIR\<close> and \<open>delete\<close> throws it.
\<close>

theorem delete_throws_on_directory:
  "delete rt exampleEnv customStore db customFile = Inl EISDIR"
proof -
  have d: "map_of customStore (js ''/srv/app/public/uploads/custom'') = Some Directory"
    by (simp add: customStore_def emptyStore_def js_def)
  show ?thesis
    by (rule delete_directory_hit [OF _ d]) (simp only: custom_paths custom_first)
qed

theorem delete_throws_on_directory_witness:
  "delete exampleRuntime exampleEnv customStore treeDb customFile = Inl EISDIR"
  by (rule delete_throws_on_directory)












end
